theory Spec2Isabelle
  imports Main
begin

section \<open>The JSON-backed document of instagram\_blog.py\<close>

text \<open>
  The application keeps its whole state in one Python dictionary that is read from and
  written to \<^verbatim>\<open>blog_data.json\<close>. The dictionaries have a fixed set of keys, so each
  is a record here. Python integers are unbounded (\<^typ>\<open>int\<close>); strings are character
  lists, a character beyond ASCII being written as its UTF-8 bytes; timestamps are the
  strings that \<^verbatim>\<open>datetime.now().isoformat()\<close> returns.

  Two keys of a post are read defensively by the code (\<^verbatim>\<open>post.get('liked_by', [])\<close>,
  \<^verbatim>\<open>'liked_by' not in post\<close>, \<^verbatim>\<open>'comments' not in post\<close>), so they may be
  absent: they are options, \<open>None\<close> standing for a missing key. \<^verbatim>\<open>image_path\<close>
  is \<^verbatim>\<open>None\<close> or a path.
\<close>

record user =
  user_id :: int
  username :: string
  email :: string
  bio :: string
  created_at :: string

record comment =
  comment_user_id :: int
  comment_username :: string
  comment_text :: string
  comment_created_at :: string

record post =
  post_id :: int
  post_user_id :: int
  post_username :: string
  content :: string
  image_path :: "string option"
  likes :: int
  liked_by :: "int list option"
  comments :: "comment list option"
  post_created_at :: string

record document =
  current_user :: user
  posts :: "post list"
  users :: "user list"
  notifications :: "string list"

subsection \<open>Reading the optional keys\<close>

text \<open>\<^verbatim>\<open>post.get('liked_by', [])\<close> and \<^verbatim>\<open>post.get('comments', [])\<close>.\<close>

definition get_liked_by :: "post \<Rightarrow> int list" where
  "get_liked_by p = (case liked_by p of None \<Rightarrow> [] | Some l \<Rightarrow> l)"

definition get_comments :: "post \<Rightarrow> comment list" where
  "get_comments p = (case comments p of None \<Rightarrow> [] | Some cs \<Rightarrow> cs)"

subsection \<open>The seeded default document\<close>

text \<open>
  \<^verbatim>\<open>create_default_data\<close> builds a dictionary literal and saves it. The literal
  reads the clock eight times, in the order in which Python evaluates the literal; the
  argument \<open>ts\<close> gives the reading of the \<open>k\<close>-th call. The emoji of the source are
  their UTF-8 bytes.
\<close>

definition default_bio :: string where
  "default_bio = ''Welcome to my blog! '' @ [CHR 0xE2, CHR 0x9C, CHR 0xA8]
     @ '' Sharing moments and thoughts.''"

definition default_user :: "string \<Rightarrow> user" where
  "default_user t = \<lparr>user_id = 1, username = ''harini'', email = ''harini@example.com'',
     bio = default_bio, created_at = t\<rparr>"

definition default_posts :: "(nat \<Rightarrow> string) \<Rightarrow> post list" where
  "default_posts ts =
    [\<lparr>post_id = 1, post_user_id = 1, post_username = ''harini'',
      content = ''Beautiful sunset at the beach! '' @ [CHR 0xF0, CHR 0x9F, CHR 0x8C, CHR 0x85]
        @ '' #sunset #beach #nature'',
      image_path = None, likes = 42, liked_by = Some [],
      comments = Some
        [\<lparr>comment_user_id = 2, comment_username = ''friend1'', comment_text = ''Amazing shot!'',
          comment_created_at = ts 1\<rparr>,
         \<lparr>comment_user_id = 3, comment_username = ''friend2'',
          comment_text = ''Love this! '' @ [CHR 0xE2, CHR 0x9D, CHR 0xA4, CHR 0xEF, CHR 0xB8, CHR 0x8F],
          comment_created_at = ts 2\<rparr>],
      post_created_at = ts 3\<rparr>,
     \<lparr>post_id = 2, post_user_id = 1, post_username = ''harini'',
      content = ''Coffee and coding '' @ [CHR 0xE2, CHR 0x98, CHR 0x95, CHR 0xF0, CHR 0x9F,
        CHR 0x92, CHR 0xBB] @ '' Perfect morning vibes!'',
      image_path = None, likes = 28, liked_by = Some [],
      comments = Some
        [\<lparr>comment_user_id = 2, comment_username = ''friend1'', comment_text = ''Same here!'',
          comment_created_at = ts 4\<rparr>],
      post_created_at = ts 5\<rparr>,
     \<lparr>post_id = 3, post_user_id = 1, post_username = ''harini'',
      content = ''New project coming soon! Stay tuned '' @ [CHR 0xF0, CHR 0x9F, CHR 0x9A,
        CHR 0x80] @ '' #coding #project'',
      image_path = None, likes = 35, liked_by = Some [],
      comments = Some [],
      post_created_at = ts 6\<rparr>]"

definition default_data :: "(nat \<Rightarrow> string) \<Rightarrow> document" where
  "default_data ts =
    \<lparr>current_user = default_user (ts 0),
     posts = default_posts ts,
     users = [default_user (ts 7)],
     notifications = []\<rparr>"

subsection \<open>Toggling a like\<close>

text \<open>
  The body of the loop of \<^verbatim>\<open>PostCard._toggle_like\<close> at the post it finds:
  \<^verbatim>\<open>list.remove\<close> deletes the first occurrence, \<^verbatim>\<open>append\<close> adds at the end,
  and a missing \<^verbatim>\<open>liked_by\<close> key is created before the append.
\<close>

definition toggle_like_post :: "int \<Rightarrow> post \<Rightarrow> post" where
  "toggle_like_post uid p =
    (if uid \<in> set (get_liked_by p)
     then p\<lparr>liked_by := Some (remove1 uid (get_liked_by p)),
            likes := max 0 (likes p - 1)\<rparr>
     else p\<lparr>liked_by := Some (get_liked_by p @ [uid]),
            likes := likes p + 1\<rparr>)"

text \<open>
  \<^verbatim>\<open>for post in data['posts']: if post['post_id'] == post_id: ...; break\<close>:
  the first post with the id is changed, the posts after it are not looked at.
\<close>

fun toggle_like_posts :: "int \<Rightarrow> int \<Rightarrow> post list \<Rightarrow> post list" where
  "toggle_like_posts pid uid [] = []"
| "toggle_like_posts pid uid (p # ps) =
    (if post_id p = pid then toggle_like_post uid p # ps
     else p # toggle_like_posts pid uid ps)"

definition toggle_like :: "document \<Rightarrow> int \<Rightarrow> int \<Rightarrow> document" where
  "toggle_like data pid uid = data\<lparr>posts := toggle_like_posts pid uid (posts data)\<rparr>"

subsection \<open>Creating a post\<close>

text \<open>\<^verbatim>\<open>max(xs, default=d)\<close>: the default only when the list is empty.\<close>

definition max_default :: "int list \<Rightarrow> int \<Rightarrow> int" where
  "max_default xs d = (case xs of [] \<Rightarrow> d | y # ys \<Rightarrow> fold max ys y)"

definition next_post_id :: "document \<Rightarrow> int" where
  "next_post_id data = max_default (map post_id (posts data)) 0 + 1"

text \<open>
  The dictionary literal \<^verbatim>\<open>new_post\<close> of \<^verbatim>\<open>AddPostPopup._create_post\<close>, from the
  author \<^verbatim>\<open>user\<close>, the caption, the stored image path and the clock reading. The
  handler returns before this block when the caption is empty or the image cannot be
  copied; the block itself is the \<^verbatim>\<open>createPost\<close> of the specification.
\<close>

definition new_post :: "document \<Rightarrow> user \<Rightarrow> string \<Rightarrow> string option \<Rightarrow> string \<Rightarrow> post" where
  "new_post data u caption saved_image_path now =
    \<lparr>post_id = next_post_id data,
     post_user_id = user_id u,
     post_username = username u,
     content = caption,
     image_path = saved_image_path,
     likes = 0,
     liked_by = Some [],
     comments = Some [],
     post_created_at = now\<rparr>"

text \<open>\<^verbatim>\<open>data['posts'].insert(0, new_post)\<close>.\<close>

definition create_post :: "document \<Rightarrow> user \<Rightarrow> string \<Rightarrow> string option \<Rightarrow> string \<Rightarrow> document" where
  "create_post data u caption saved_image_path now =
    data\<lparr>posts := new_post data u caption saved_image_path now # posts data\<rparr>"

subsection \<open>Adding a comment\<close>

text \<open>
  The loop of \<^verbatim>\<open>CommentsPopup._add_comment\<close>: the comment is appended to the first
  post with the id, and a missing \<^verbatim>\<open>comments\<close> key is created first.
\<close>

definition new_comment :: "user \<Rightarrow> string \<Rightarrow> string \<Rightarrow> comment" where
  "new_comment u ctext now =
    \<lparr>comment_user_id = user_id u, comment_username = username u, comment_text = ctext,
     comment_created_at = now\<rparr>"

definition add_comment_post :: "comment \<Rightarrow> post \<Rightarrow> post" where
  "add_comment_post c p = p\<lparr>comments := Some (get_comments p @ [c])\<rparr>"

fun add_comment_posts :: "int \<Rightarrow> comment \<Rightarrow> post list \<Rightarrow> post list" where
  "add_comment_posts pid c [] = []"
| "add_comment_posts pid c (p # ps) =
    (if post_id p = pid then add_comment_post c p # ps
     else p # add_comment_posts pid c ps)"

definition add_comment :: "document \<Rightarrow> int \<Rightarrow> user \<Rightarrow> string \<Rightarrow> string \<Rightarrow> document" where
  "add_comment data pid u ctext now =
    data\<lparr>posts := add_comment_posts pid (new_comment u ctext now) (posts data)\<rparr>"

subsection \<open>Sequences of calls, and the like-count invariant\<close>

text \<open>A sequence of \<^verbatim>\<open>_create_post\<close> calls, and of \<^verbatim>\<open>_add_comment\<close> calls on one post.\<close>

fun create_posts :: "document \<Rightarrow> (user \<times> string \<times> string option \<times> string) list \<Rightarrow> document" where
  "create_posts d [] = d"
| "create_posts d ((u, caption, img, now) # rs) = create_posts (create_post d u caption img now) rs"

fun add_comments :: "document \<Rightarrow> int \<Rightarrow> (user \<times> string \<times> string) list \<Rightarrow> document" where
  "add_comments d pid [] = d"
| "add_comments d pid ((u, ctext, now) # rs) = add_comments (add_comment d pid u ctext now) pid rs"

text \<open>
  \<open>likes == size(liked_by)\<close> for one post and for every post of a document, and the
  documents that the three mutations reach from a given one.
\<close>

definition likes_consistent :: "post \<Rightarrow> bool" where
  "likes_consistent p \<longleftrightarrow> likes p = int (length (get_liked_by p))"

definition doc_likes_consistent :: "document \<Rightarrow> bool" where
  "doc_likes_consistent d \<longleftrightarrow> list_all likes_consistent (posts d)"

text \<open>
  A weaker bound that the seeded posts satisfy as well: no liker is recorded twice and
  the count is at least the number of recorded likers.
\<close>

definition likes_bounded :: "post \<Rightarrow> bool" where
  "likes_bounded p \<longleftrightarrow> distinct (get_liked_by p) \<and> int (length (get_liked_by p)) \<le> likes p"

text \<open>
  A later version \<open>q\<close> of a post \<open>p\<close>: the same id, and \<open>likes == size(liked_by)\<close>
  still holds if it held.
\<close>

definition keeps_likes :: "post \<Rightarrow> post \<Rightarrow> bool" where
  "keeps_likes p q \<longleftrightarrow> post_id q = post_id p \<and> (likes_consistent p \<longrightarrow> likes_consistent q)"

inductive reachable :: "document \<Rightarrow> document \<Rightarrow> bool" for d :: document where
  start: "reachable d d"
| created: "reachable d d' \<Longrightarrow> reachable d (create_post d' u caption img now)"
| toggled: "reachable d d' \<Longrightarrow> reachable d (toggle_like d' pid uid)"
| commented: "reachable d d' \<Longrightarrow> reachable d (add_comment d' pid u ctext now)"

section \<open>The JSON values and the text of the backing file\<close>

text \<open>
  \<^verbatim>\<open>json.dump\<close> and \<^verbatim>\<open>json.load\<close> work on Python objects built from
  \<^verbatim>\<open>None\<close>, booleans, integers, strings, lists and dictionaries with string keys. A
  dictionary keeps its keys in insertion order, so it is an association list.
\<close>

datatype json =
    JNull
  | JBool bool
  | JInt int
  | JString string
  | JArray "json list"
  | JObject "(string \<times> json) list"

definition quote_char :: char where "quote_char = CHR 0x22"
definition backslash :: char where "backslash = CHR 0x5C"
definition newline :: char where "newline = CHR 0x0A"

definition digit_char :: "nat \<Rightarrow> char" where
  "digit_char d = char_of (48 + d)"

function show_nat :: "nat \<Rightarrow> string" where
  "show_nat n = (if n < 10 then [digit_char n] else show_nat (n div 10) @ [digit_char (n mod 10)])"
  by pat_completeness auto
termination
  by (relation "measure id") auto

declare show_nat.simps [simp del]

definition show_int :: "int \<Rightarrow> string" where
  "show_int i = (if i < 0 then CHR ''-'' # show_nat (nat (- i)) else show_nat (nat i))"

definition hex_char :: "nat \<Rightarrow> char" where
  "hex_char d = (if d < 10 then char_of (48 + d) else char_of (87 + d))"

definition escape_char :: "char \<Rightarrow> string" where
  "escape_char c =
    (if c = quote_char then [backslash, quote_char]
     else if c = backslash then [backslash, backslash]
     else if c = newline then [backslash, CHR ''n'']
     else if c = CHR 0x0D then [backslash, CHR ''r'']
     else if c = CHR 0x09 then [backslash, CHR ''t'']
     else if c = CHR 0x08 then [backslash, CHR ''b'']
     else if c = CHR 0x0C then [backslash, CHR ''f'']
     else if (of_char c :: nat) < 32
       then [backslash, CHR ''u'', CHR ''0'', CHR ''0'',
             hex_char (of_char c div 16), hex_char (of_char c mod 16)]
     else [c])"

definition dump_string :: "string \<Rightarrow> string" where
  "dump_string s = quote_char # concat (map escape_char s) @ [quote_char]"

definition newline_indent :: "nat \<Rightarrow> string" where
  "newline_indent lvl = newline # replicate (2 * lvl) CHR '' ''"

fun join :: "string \<Rightarrow> string list \<Rightarrow> string" where
  "join sep [] = []"
| "join sep [x] = x"
| "join sep (x # y # ys) = x @ sep @ join sep (y # ys)"

fun dump :: "nat \<Rightarrow> json \<Rightarrow> string" where
  "dump lvl JNull = ''null''"
| "dump lvl (JBool b) = (if b then ''true'' else ''false'')"
| "dump lvl (JInt i) = show_int i"
| "dump lvl (JString s) = dump_string s"
| "dump lvl (JArray xs) =
    (if xs = [] then ''[]''
     else ''['' @ newline_indent (Suc lvl)
          @ join (CHR '','' # newline_indent (Suc lvl)) (map (dump (Suc lvl)) xs)
          @ newline_indent lvl @ '']'')"
| "dump lvl (JObject kvs) =
    (if kvs = [] then ''{}''
     else ''{'' @ newline_indent (Suc lvl)
          @ join (CHR '','' # newline_indent (Suc lvl))
              (map (\<lambda>kv. dump_string (fst kv) @ '': '' @ dump (Suc lvl) (snd kv)) kvs)
          @ newline_indent lvl @ ''}'')"


text \<open>
  The dictionaries that the program builds, with the keys in the order of the source. A
  \<^verbatim>\<open>liked_by\<close> or \<^verbatim>\<open>comments\<close> key that a handler had to create stands last in
  the Python dictionary; a record does not keep the order of the keys, so such a key is
  written here at the place it has in the literals. Equality of Python dictionaries does
  not depend on the order.
\<close>

definition json_of_user :: "user \<Rightarrow> json" where
  "json_of_user u = JObject
    [(''user_id'', JInt (user_id u)),
     (''username'', JString (username u)),
     (''email'', JString (email u)),
     (''bio'', JString (bio u)),
     (''created_at'', JString (created_at u))]"

definition json_of_comment :: "comment \<Rightarrow> json" where
  "json_of_comment c = JObject
    [(''user_id'', JInt (comment_user_id c)),
     (''username'', JString (comment_username c)),
     (''text'', JString (comment_text c)),
     (''created_at'', JString (comment_created_at c))]"

definition json_of_post :: "post \<Rightarrow> json" where
  "json_of_post p = JObject
    ([(''post_id'', JInt (post_id p)),
      (''user_id'', JInt (post_user_id p)),
      (''username'', JString (post_username p)),
      (''content'', JString (content p)),
      (''image_path'', (case image_path p of None \<Rightarrow> JNull | Some path \<Rightarrow> JString path)),
      (''likes'', JInt (likes p))]
     @ (case liked_by p of None \<Rightarrow> [] | Some l \<Rightarrow> [(''liked_by'', JArray (map JInt l))])
     @ (case comments p of None \<Rightarrow> []
        | Some cs \<Rightarrow> [(''comments'', JArray (map json_of_comment cs))])
     @ [(''created_at'', JString (post_created_at p))])"

definition json_of_document :: "document \<Rightarrow> json" where
  "json_of_document d = JObject
    [(''current_user'', json_of_user (current_user d)),
     (''posts'', JArray (map json_of_post (posts d))),
     (''users'', JArray (map json_of_user (users d))),
     (''notifications'', JArray (map JString (notifications d)))]"

subsection \<open>Writing: \<^verbatim>\<open>json.dump(data, f, indent=2, ensure_ascii=False)\<close>\<close>

text \<open>
  The text that Python writes: two spaces of indentation per level, \<^verbatim>\<open>,\<close> and a
  line break between items, \<^verbatim>\<open>: \<close> after a key, \<^verbatim>\<open>[]\<close> and \<^verbatim>\<open>{}\<close>
  for the empty containers. With \<^verbatim>\<open>ensure_ascii=False\<close> only the quote, the
  backslash and the control characters are escaped.
\<close>

definition json_dumps :: "json \<Rightarrow> string" where
  "json_dumps j = dump 0 j"


subsection \<open>Reading: \<^verbatim>\<open>json.load(f)\<close>\<close>

text \<open>
  A recursive-descent reader of the JSON grammar: white space between tokens, the three
  literals, integers, strings with their escapes, arrays and objects. \<open>None\<close> is the
  exception that \<^verbatim>\<open>json.load\<close> raises. As in Python a control character inside a
  string is refused, a repeated key keeps its first position and its last value, and
  nothing but white space may follow the value. Numbers with a fraction or an exponent,
  \<^verbatim>\<open>NaN\<close>, \<^verbatim>\<open>Infinity\<close> and \<^verbatim>\<open>\u\<close> escapes beyond ASCII are texts that
  \<^verbatim>\<open>json.load\<close> accepts and this reader refuses: it reads a part of what Python
  reads, and the writer below produces none of them. Bytes beyond ASCII inside a string
  are taken as they are.

  The tests \<open>length r' < length s\<close> before the recursive calls on a remainder make the
  recursion well-founded; a remainder is always shorter than the text it was cut from.
\<close>

definition is_ws :: "char \<Rightarrow> bool" where
  "is_ws c \<longleftrightarrow> c = CHR '' '' \<or> c = newline \<or> c = CHR 0x0D \<or> c = CHR 0x09"

definition skip_ws :: "string \<Rightarrow> string" where
  "skip_ws s = dropWhile is_ws s"

definition is_digit :: "char \<Rightarrow> bool" where
  "is_digit c \<longleftrightarrow> 48 \<le> (of_char c :: nat) \<and> (of_char c :: nat) \<le> 57"

definition digit_val :: "char \<Rightarrow> nat" where
  "digit_val c = of_char c - 48"

definition read_nat :: "string \<Rightarrow> nat" where
  "read_nat ds = foldl (\<lambda>acc c. 10 * acc + digit_val c) 0 ds"

definition hex_val :: "char \<Rightarrow> nat option" where
  "hex_val c =
    (let n = (of_char c :: nat) in
     if 48 \<le> n \<and> n \<le> 57 then Some (n - 48)
     else if 97 \<le> n \<and> n \<le> 102 then Some (n - 87)
     else if 65 \<le> n \<and> n \<le> 70 then Some (n - 55)
     else None)"

definition unescape :: "char \<Rightarrow> char option" where
  "unescape e =
    (if e = quote_char then Some quote_char
     else if e = backslash then Some backslash
     else if e = CHR ''/'' then Some CHR ''/''
     else if e = CHR ''n'' then Some newline
     else if e = CHR ''r'' then Some (CHR 0x0D)
     else if e = CHR ''t'' then Some (CHR 0x09)
     else if e = CHR ''b'' then Some (CHR 0x08)
     else if e = CHR ''f'' then Some (CHR 0x0C)
     else None)"

definition read_hex4 :: "char \<Rightarrow> char \<Rightarrow> char \<Rightarrow> char \<Rightarrow> nat option" where
  "read_hex4 a b c d =
    (case (hex_val a, hex_val b, hex_val c, hex_val d) of
       (Some x, Some y, Some z, Some w) \<Rightarrow> Some (((x * 16 + y) * 16 + z) * 16 + w)
     | _ \<Rightarrow> None)"

definition cons_char :: "char \<Rightarrow> (string \<times> string) option \<Rightarrow> (string \<times> string) option" where
  "cons_char c r = map_option (\<lambda>(s, rest). (c # s, rest)) r"

fun parse_string_body :: "string \<Rightarrow> (string \<times> string) option" where
  "parse_string_body [] = None"
| "parse_string_body (c # cs) =
    (if c = quote_char then Some ([], cs)
     else if c = backslash then
       (case cs of
          [] \<Rightarrow> None
        | e # r \<Rightarrow>
            if e = CHR ''u'' then
              (case r of
                 h1 # h2 # h3 # h4 # r' \<Rightarrow>
                   (case read_hex4 h1 h2 h3 h4 of
                      None \<Rightarrow> None
                    | Some v \<Rightarrow> if v < 128 then cons_char (char_of v) (parse_string_body r') else None)
               | _ \<Rightarrow> None)
            else (case unescape e of
                    None \<Rightarrow> None
                  | Some ch \<Rightarrow> cons_char ch (parse_string_body r)))
     else if (of_char c :: nat) < 32 then None
     else cons_char c (parse_string_body cs))"

definition starts_with :: "string \<Rightarrow> string \<Rightarrow> bool" where
  "starts_with p s \<longleftrightarrow> take (length p) s = p"

definition parse_number :: "string \<Rightarrow> (json \<times> string) option" where
  "parse_number s =
    (let neg = starts_with ''-'' s;
         s1 = (if neg then drop 1 s else s);
         ds = takeWhile is_digit s1;
         rest = dropWhile is_digit s1
     in if ds = [] then None
        else if 1 < length ds \<and> hd ds = CHR ''0'' then None
        else if starts_with ''.'' rest \<or> starts_with ''e'' rest \<or> starts_with ''E'' rest then None
        else Some (JInt (if neg then - int (read_nat ds) else int (read_nat ds)), rest))"

definition parse_atom :: "string \<Rightarrow> (json \<times> string) option" where
  "parse_atom s =
    (if starts_with ''null'' s then Some (JNull, drop 4 s)
     else if starts_with ''true'' s then Some (JBool True, drop 4 s)
     else if starts_with ''false'' s then Some (JBool False, drop 5 s)
     else parse_number s)"

definition dict_set :: "string \<Rightarrow> json \<Rightarrow> (string \<times> json) list \<Rightarrow> (string \<times> json) list" where
  "dict_set k v kvs =
    (if k \<in> fst ` set kvs then map (\<lambda>kv. if fst kv = k then (k, v) else kv) kvs
     else kvs @ [(k, v)])"

definition dict_of_pairs :: "(string \<times> json) list \<Rightarrow> (string \<times> json) list" where
  "dict_of_pairs kvs = foldl (\<lambda>acc kv. dict_set (fst kv) (snd kv) acc) [] kvs"

function parse_value :: "string \<Rightarrow> (json \<times> string) option"
  and parse_elems :: "string \<Rightarrow> (json list \<times> string) option"
  and parse_members :: "string \<Rightarrow> ((string \<times> json) list \<times> string) option"
where
  "parse_value [] = None"
| "parse_value (c # cs) =
    (if c = CHR ''['' then
       (case skip_ws cs of
          [] \<Rightarrow> None
        | c' # r \<Rightarrow>
            if c' = CHR '']'' then Some (JArray [], r)
            else map_option (\<lambda>(vs, rest). (JArray vs, rest)) (parse_elems cs))
     else if c = CHR ''{'' then
       (case skip_ws cs of
          [] \<Rightarrow> None
        | c' # r \<Rightarrow>
            if c' = CHR ''}'' then Some (JObject [], r)
            else map_option (\<lambda>(kvs, rest). (JObject (dict_of_pairs kvs), rest)) (parse_members cs))
     else if c = quote_char then
       map_option (\<lambda>(str, rest). (JString str, rest)) (parse_string_body cs)
     else parse_atom (c # cs))"
| "parse_elems s =
    (case parse_value (skip_ws s) of
       None \<Rightarrow> None
     | Some (v, r) \<Rightarrow>
         (case skip_ws r of
            [] \<Rightarrow> None
          | c # r' \<Rightarrow>
              if c = CHR '','' then
                (if length r' < length s
                 then map_option (\<lambda>(vs, rest). (v # vs, rest)) (parse_elems r')
                 else None)
              else if c = CHR '']'' then Some ([v], r')
              else None))"
| "parse_members s =
    (case skip_ws s of
       [] \<Rightarrow> None
     | c # cs \<Rightarrow>
         if c \<noteq> quote_char then None
         else
           (case parse_string_body cs of
              None \<Rightarrow> None
            | Some (k, r) \<Rightarrow>
                (case skip_ws r of
                   [] \<Rightarrow> None
                 | c' # r' \<Rightarrow>
                     if c' \<noteq> CHR '':'' \<or> \<not> length r' < length s then None
                     else
                       (case parse_value (skip_ws r') of
                          None \<Rightarrow> None
                        | Some (v, r2) \<Rightarrow>
                            (case skip_ws r2 of
                               [] \<Rightarrow> None
                             | c2 # r3 \<Rightarrow>
                                 if c2 = CHR '','' then
                                   (if length r3 < length s
                                    then map_option (\<lambda>(kvs, rest). ((k, v) # kvs, rest))
                                           (parse_members r3)
                                    else None)
                                 else if c2 = CHR ''}'' then Some ([(k, v)], r3)
                                 else None)))))"
  by pat_completeness auto
termination
  by (relation "measures
        [\<lambda>x. case x of Inl s \<Rightarrow> length s | Inr (Inl s) \<Rightarrow> length s | Inr (Inr s) \<Rightarrow> length s,
         \<lambda>x. case x of Inl s \<Rightarrow> 0 | Inr y \<Rightarrow> Suc 0]")
     (auto simp: skip_ws_def intro: le_less_trans [OF length_dropWhile_le]
        le_neq_implies_less [OF length_dropWhile_le])

declare parse_value.simps [simp del] parse_elems.simps [simp del] parse_members.simps [simp del]

definition json_loads :: "string \<Rightarrow> json option" where
  "json_loads s =
    (case parse_value (skip_ws s) of
       None \<Rightarrow> None
     | Some (j, r) \<Rightarrow> if skip_ws r = [] then Some j else None)"

subsection \<open>Values and texts of the writer\<close>

text \<open>
  A Python dictionary has no key twice: \<open>wf_json\<close> holds of the association lists
  that are dictionaries, at every depth. In the text of \<^verbatim>\<open>json.dump\<close> an item is
  followed by a comma, by a line break or by the end of the text.
\<close>

fun wf_json :: "json \<Rightarrow> bool" where
  "wf_json (JArray xs) = list_all wf_json xs"
| "wf_json (JObject kvs) = (distinct (map fst kvs) \<and> list_all (\<lambda>kv. wf_json (snd kv)) kvs)"
| "wf_json j = True"

definition item_end :: "string \<Rightarrow> bool" where
  "item_end rest \<longleftrightarrow> (case rest of [] \<Rightarrow> True | c # cs \<Rightarrow> c = CHR '','' \<or> c = newline)"

section \<open>The backing file\<close>

text \<open>
  The state of the disk is the text of \<^verbatim>\<open>blog_data.json\<close>, or \<open>None\<close> when the file
  does not exist. The \<^verbatim>\<open>json\<close> module is a parameter of the operations; \<open>python_json\<close>
  is the writer and the reader above.
\<close>

type_synonym disk = "string option"

record json_lib =
  json_dump :: "json \<Rightarrow> string"
  json_load :: "string \<Rightarrow> json option"

definition python_json :: json_lib where
  "python_json = \<lparr>json_dump = json_dumps, json_load = json_loads\<rparr>"

text \<open>
  What the operating system does to a read and to a write is a parameter too.
  \<^verbatim>\<open>open(DATA_FILE, 'w')\<close> can fail, and then the file is as before; once it has
  succeeded the file is empty, and a failure during \<^verbatim>\<open>json.dump\<close> or on closing
  leaves the first \<open>n\<close> characters of the text in the file.
\<close>

datatype read_outcome = ReadOk | ReadFailed

datatype write_outcome = Written | OpenFailed | WriteFailed nat

datatype error = OSError | JSONDecodeError

text \<open>What the user gets to see: the \<^verbatim>\<open>print\<close> of \<^verbatim>\<open>load_data\<close> and the error box of \<^verbatim>\<open>save_data\<close>.\<close>

datatype event = PrintedLoadError | ShownSaveError

text \<open>\<^verbatim>\<open>with open(DATA_FILE, 'w', encoding='utf-8') as f: json.dump(data, f, ...)\<close>\<close>

definition write_file :: "write_outcome \<Rightarrow> string \<Rightarrow> disk \<Rightarrow> (error + unit) \<times> disk" where
  "write_file w s fs =
    (case w of
       Written \<Rightarrow> (Inr (), Some s)
     | OpenFailed \<Rightarrow> (Inl OSError, fs)
     | WriteFailed n \<Rightarrow> (Inl OSError, Some (take n s)))"

text \<open>
  \<^verbatim>\<open>save_data\<close>: the \<^verbatim>\<open>except Exception\<close> turns every failure into an error box
  and the function returns normally. A procedure returns its result or the exception it
  raises, the new state of the file, and what it showed.
\<close>

definition save_data ::
  "json_lib \<Rightarrow> write_outcome \<Rightarrow> json \<Rightarrow> disk \<Rightarrow> (error + unit) \<times> disk \<times> event list" where
  "save_data lib w data fs =
    (case write_file w (json_dump lib data) fs of
       (Inr u, fs') \<Rightarrow> (Inr (), fs', [])
     | (Inl e, fs') \<Rightarrow> (Inr (), fs', [ShownSaveError]))"

text \<open>\<^verbatim>\<open>create_default_data\<close>: build the default dictionary, save it, return it.\<close>

definition create_default_data ::
  "json_lib \<Rightarrow> write_outcome \<Rightarrow> (nat \<Rightarrow> string) \<Rightarrow> disk \<Rightarrow> (error + json) \<times> disk \<times> event list" where
  "create_default_data lib w ts fs =
    (case save_data lib w (json_of_document (default_data ts)) fs of
       (Inr u, fs', evs) \<Rightarrow> (Inr (json_of_document (default_data ts)), fs', evs)
     | (Inl e, fs', evs) \<Rightarrow> (Inl e, fs', evs))"

text \<open>The \<^verbatim>\<open>try\<close> block of \<^verbatim>\<open>load_data\<close>: open the file, read it, parse it.\<close>

definition read_json :: "json_lib \<Rightarrow> read_outcome \<Rightarrow> string \<Rightarrow> error + json" where
  "read_json lib r s =
    (case r of
       ReadFailed \<Rightarrow> Inl OSError
     | ReadOk \<Rightarrow> (case json_load lib s of None \<Rightarrow> Inl JSONDecodeError | Some j \<Rightarrow> Inr j))"

definition load_data ::
  "json_lib \<Rightarrow> read_outcome \<Rightarrow> write_outcome \<Rightarrow> (nat \<Rightarrow> string) \<Rightarrow> disk
     \<Rightarrow> (error + json) \<times> disk \<times> event list" where
  "load_data lib r w ts fs =
    (case fs of
       Some s \<Rightarrow>
         (case read_json lib r s of
            Inr j \<Rightarrow> (Inr j, fs, [])
          | Inl e \<Rightarrow>
              (case create_default_data lib w ts fs of
                 (res, fs', evs) \<Rightarrow> (res, fs', PrintedLoadError # evs)))
     | None \<Rightarrow> create_default_data lib w ts fs)"

section \<open>Sample inputs\<close>

definition fixed_clock :: "nat \<Rightarrow> string" where
  "fixed_clock k = ''2024-05-01T10:00:00.00000'' @ [char_of (48 + k)]"

text \<open>A post with two likes and no recorded liker, as the seeded posts have.\<close>

definition scenario_post :: post where
  "scenario_post = \<lparr>post_id = 1, post_user_id = 1, post_username = ''harini'', content = ''hello'',
     image_path = None, likes = 2, liked_by = Some [], comments = Some [],
     post_created_at = ''2024-05-01T10:00:00.000003''\<rparr>"

definition scenario_doc :: document where
  "scenario_doc = \<lparr>current_user = default_user ''2024-05-01T10:00:00.000000'',
     posts = [scenario_post], users = [], notifications = []\<rparr>"

text \<open>A post whose file records a liker but a count of zero.\<close>

definition stale_post :: post where
  "stale_post = \<lparr>post_id = 1, post_user_id = 1, post_username = ''harini'', content = ''hello'',
     image_path = None, likes = 0, liked_by = Some [5], comments = Some [],
     post_created_at = ''2024-05-01T10:00:00.000003''\<rparr>"

definition stale_doc :: document where
  "stale_doc = \<lparr>current_user = default_user ''2024-05-01T10:00:00.000000'',
     posts = [stale_post], users = [], notifications = []\<rparr>"

text \<open>A post with one like by user 2, before a post with two likes and no recorded liker.\<close>

definition mixed_doc :: document where
  "mixed_doc = \<lparr>current_user = default_user ''2024-05-01T10:00:00.000000'',
     posts = [scenario_post\<lparr>post_id := 2, likes := 1, liked_by := Some [2]\<rparr>, scenario_post],
     users = [], notifications = []\<rparr>"

definition empty_doc :: document where
  "empty_doc = \<lparr>current_user = default_user ''2024-05-01T10:00:00.000000'',
     posts = [], users = [], notifications = []\<rparr>"

section \<open>Properties of the mutations\<close>

subsection \<open>The loops change the first post with the id, and only that one\<close>

lemma toggle_like_posts_absent:
  "pid \<notin> post_id ` set ps \<Longrightarrow> toggle_like_posts pid uid ps = ps"
  by (induction ps) auto

lemma toggle_like_posts_first:
  "pid \<notin> post_id ` set pre \<Longrightarrow> post_id p = pid \<Longrightarrow>
   toggle_like_posts pid uid (pre @ p # suf) = pre @ toggle_like_post uid p # suf"
  by (induction pre) auto

lemma add_comment_posts_absent:
  "pid \<notin> post_id ` set ps \<Longrightarrow> add_comment_posts pid c ps = ps"
  by (induction ps) auto

lemma add_comment_posts_first:
  "pid \<notin> post_id ` set pre \<Longrightarrow> post_id p = pid \<Longrightarrow>
   add_comment_posts pid c (pre @ p # suf) = pre @ add_comment_post c p # suf"
  by (induction pre) auto

lemma find_post_split:
  "find (\<lambda>q. post_id q = pid) ps = Some p \<Longrightarrow>
   \<exists>pre suf. ps = pre @ p # suf \<and> pid \<notin> post_id ` set pre \<and> post_id p = pid"
proof (induction ps)
  case Nil
  then show ?case by simp
next
  case (Cons q qs)
  show ?case
  proof (cases "post_id q = pid")
    case True
    with Cons.prems have "q = p" by simp
    with True have "q # qs = [] @ p # qs \<and> pid \<notin> post_id ` set [] \<and> post_id p = pid" by simp
    then show ?thesis by blast
  next
    case False
    with Cons obtain pre suf where "qs = pre @ p # suf" "pid \<notin> post_id ` set pre" "post_id p = pid"
      by auto
    with False have "q # qs = (q # pre) @ p # suf \<and> pid \<notin> post_id ` set (q # pre) \<and> post_id p = pid"
      by auto
    then show ?thesis by blast
  qed
qed

lemma find_post_first:
  "pid \<notin> post_id ` set pre \<Longrightarrow> post_id p = pid \<Longrightarrow>
   find (\<lambda>q. post_id q = pid) (pre @ p # suf) = Some p"
  by (induction pre) auto

lemma post_id_toggle_like_post [simp]: "post_id (toggle_like_post uid p) = post_id p"
  by (simp add: toggle_like_post_def)

lemma post_id_add_comment_post [simp]: "post_id (add_comment_post c p) = post_id p"
  by (simp add: add_comment_post_def)

lemma get_liked_by_update [simp]: "get_liked_by (p\<lparr>liked_by := Some l\<rparr>) = l"
  by (simp add: get_liked_by_def)

lemma get_liked_by_likes_update [simp]: "get_liked_by (p\<lparr>likes := n\<rparr>) = get_liked_by p"
  by (simp add: get_liked_by_def)

lemma get_liked_by_comments_update [simp]: "get_liked_by (p\<lparr>comments := cs\<rparr>) = get_liked_by p"
  by (simp add: get_liked_by_def)

lemma get_comments_update [simp]: "get_comments (p\<lparr>comments := Some cs\<rparr>) = cs"
  by (simp add: get_comments_def)


subsection \<open>The like count and the liker list\<close>

lemma likes_consistent_toggle_like_post:
  "likes_consistent p \<Longrightarrow> likes_consistent (toggle_like_post uid p)"
  by (auto simp: likes_consistent_def toggle_like_post_def length_remove1 dest: length_pos_if_in_set)

lemma likes_consistent_add_comment_post:
  "likes_consistent p \<Longrightarrow> likes_consistent (add_comment_post c p)"
  by (simp add: likes_consistent_def add_comment_post_def)

lemma likes_consistent_new_post: "likes_consistent (new_post d u caption img now)"
  by (simp add: likes_consistent_def new_post_def get_liked_by_def)

lemma list_all_toggle_like_posts:
  "list_all likes_consistent ps \<Longrightarrow> list_all likes_consistent (toggle_like_posts pid uid ps)"
  by (induction ps) (auto simp: likes_consistent_toggle_like_post)

lemma list_all_add_comment_posts:
  "list_all likes_consistent ps \<Longrightarrow> list_all likes_consistent (add_comment_posts pid c ps)"
  by (induction ps) (auto simp: likes_consistent_add_comment_post)


text \<open>
  When every post of a document satisfies \<open>likes == size(liked_by)\<close>, every post of
  every document reached from it does.
\<close>

lemma doc_likes_consistent_preserved:
  assumes "doc_likes_consistent d" and "reachable d d'"
  shows "doc_likes_consistent d'"
  using assms(2)
proof (induction rule: reachable.induct)
  case start
  show ?case by (rule assms(1))
next
  case (created d' u caption img now)
  then show ?case
    by (simp add: doc_likes_consistent_def create_post_def likes_consistent_new_post)
next
  case (toggled d' pid uid)
  then show ?case
    by (simp add: doc_likes_consistent_def toggle_like_def list_all_toggle_like_posts)
next
  case (commented d' pid u ctext now)
  then show ?case
    by (simp add: doc_likes_consistent_def add_comment_def list_all_add_comment_posts)
qed


text \<open>
  Post by post: a toggle and a comment keep the id of every post and keep
  \<open>likes == size(liked_by)\<close> where it holds, and a new post is put in front.
\<close>

lemma keeps_likes_refl: "keeps_likes p p"
  by (simp add: keeps_likes_def)

lemma keeps_likes_trans: "keeps_likes p q \<Longrightarrow> keeps_likes q r \<Longrightarrow> keeps_likes p r"
  by (simp add: keeps_likes_def)

lemma keeps_likes_toggle_like_post: "keeps_likes p (toggle_like_post uid p)"
  by (simp add: keeps_likes_def likes_consistent_toggle_like_post)

lemma keeps_likes_add_comment_post: "keeps_likes p (add_comment_post c p)"
  by (simp add: keeps_likes_def likes_consistent_add_comment_post)

lemma keeps_likes_toggle_like_posts: "list_all2 keeps_likes ps (toggle_like_posts pid uid ps)"
  by (induction ps) (auto simp: keeps_likes_refl keeps_likes_toggle_like_post list_all2_refl)

lemma keeps_likes_add_comment_posts: "list_all2 keeps_likes ps (add_comment_posts pid c ps)"
  by (induction ps) (auto simp: keeps_likes_refl keeps_likes_add_comment_post list_all2_refl)

lemma keeps_likes_consistent:
  "list_all2 keeps_likes ps qs \<Longrightarrow> list_all likes_consistent ps \<Longrightarrow> list_all likes_consistent qs"
  by (induction rule: list_all2_induct) (auto simp: keeps_likes_def)

lemma keeps_likes_step:
  assumes split: "ps = news @ olds"
      and news: "list_all likes_consistent news"
      and olds: "list_all2 keeps_likes olds0 olds"
      and step: "list_all2 keeps_likes ps qs"
  shows "\<exists>news' olds'. qs = news' @ olds' \<and> list_all likes_consistent news'
           \<and> list_all2 keeps_likes olds0 olds'"
proof -
  from step split have "list_all2 keeps_likes (news @ olds) qs" by simp
  then obtain news' olds' where
    qs: "qs = news' @ olds'" and n: "list_all2 keeps_likes news news'"
      and ol: "list_all2 keeps_likes olds olds'"
    unfolding list_all2_append1 by blast
  from n news have c: "list_all likes_consistent news'" by (rule keeps_likes_consistent)
  have "list_all2 keeps_likes olds0 olds'"
    using keeps_likes_trans olds ol by (rule list_all2_trans)
  with qs c show ?thesis by blast
qed

lemma reachable_keeps_likes:
  "reachable d d' \<Longrightarrow>
   \<exists>news olds. posts d' = news @ olds \<and> list_all likes_consistent news
     \<and> list_all2 keeps_likes (posts d) olds"
proof (induction rule: reachable.induct)
  case start
  have "posts d = [] @ posts d \<and> list_all likes_consistent []
      \<and> list_all2 keeps_likes (posts d) (posts d)"
    by (simp add: list_all2_refl keeps_likes_refl)
  then show ?case by blast
next
  case (created d' u caption img now)
  then obtain news olds where
    IH: "posts d' = news @ olds" "list_all likes_consistent news"
      "list_all2 keeps_likes (posts d) olds"
    by blast
  then have "posts (create_post d' u caption img now) = (new_post d' u caption img now # news) @ olds
      \<and> list_all likes_consistent (new_post d' u caption img now # news)
      \<and> list_all2 keeps_likes (posts d) olds"
    by (simp add: create_post_def likes_consistent_new_post)
  then show ?case by blast
next
  case (toggled d' pid uid)
  then obtain news olds where
    IH: "posts d' = news @ olds" "list_all likes_consistent news"
      "list_all2 keeps_likes (posts d) olds"
    by blast
  have "list_all2 keeps_likes (posts d') (posts (toggle_like d' pid uid))"
    by (simp add: toggle_like_def keeps_likes_toggle_like_posts)
  then show ?case by (rule keeps_likes_step [OF IH(1) IH(2) IH(3)])
next
  case (commented d' pid u ctext now)
  then obtain news olds where
    IH: "posts d' = news @ olds" "list_all likes_consistent news"
      "list_all2 keeps_likes (posts d) olds"
    by blast
  have "list_all2 keeps_likes (posts d') (posts (add_comment d' pid u ctext now))"
    by (simp add: add_comment_def keeps_likes_add_comment_posts)
  then show ?case by (rule keeps_likes_step [OF IH(1) IH(2) IH(3)])
qed

lemma seeded_reachable_likes:
  assumes "reachable (default_data ts) d'"
  shows "\<exists>news olds. posts d' = news @ olds \<and> list_all likes_consistent news
           \<and> map post_id olds = [1, 2, 3]"
proof -
  from reachable_keeps_likes [OF assms] obtain news olds where
    a: "posts d' = news @ olds" "list_all likes_consistent news"
      "list_all2 keeps_likes (posts (default_data ts)) olds"
    by blast
  have same: "\<And>ps qs. list_all2 keeps_likes ps qs \<Longrightarrow> map post_id qs = map post_id ps"
  proof -
    fix ps qs
    show "list_all2 keeps_likes ps qs \<Longrightarrow> map post_id qs = map post_id ps"
      by (induction rule: list_all2_induct) (simp_all add: keeps_likes_def)
  qed
  from a(3) have "map post_id olds = map post_id (posts (default_data ts))"
    by (rule same)
  also have "\<dots> = [1, 2, 3]"
    by (simp add: default_data_def default_posts_def)
  finally have ids: "map post_id olds = [1, 2, 3]" .
  from a(1) a(2) ids show ?thesis by (intro exI conjI)
qed


text \<open>
  C1. The claim is that \<open>likes == size(liked_by)\<close> holds for every post of every
  reachable document, the seeded one included. The seeded posts are written with 42, 28
  and 35 likes and an empty liker list, so the claim fails at the document that
  \<^verbatim>\<open>load_data\<close> creates. What holds, from any starting document and so from the
  seeded one: in every document that creating posts, toggling likes and adding comments
  reach, the posts are the posts created since the start, all with
  \<open>likes == size(liked_by)\<close>, followed by the posts of the starting document in their
  order, each with its id and still with \<open>likes == size(liked_by)\<close> if it had it at
  the start. In the documents reached from the seeded one this is every post but the
  three seeded ones.
\<close>

theorem likes_consistent_kept:
  assumes "reachable d d'"
  shows "\<exists>news olds. posts d' = news @ olds \<and> list_all likes_consistent news
           \<and> list_all2 keeps_likes (posts d) olds"
  using assms by (rule reachable_keeps_likes)

theorem likes_consistent_kept_witness:
  "reachable (default_data fixed_clock)
     (toggle_like (toggle_like (create_post (default_data fixed_clock) (default_user ''t'') ''first''
        None (fixed_clock 8)) 4 7) 1 7)
   \<and> (\<exists>news olds.
         posts (toggle_like (toggle_like (create_post (default_data fixed_clock) (default_user ''t'')
           ''first'' None (fixed_clock 8)) 4 7) 1 7) = news @ olds
         \<and> list_all likes_consistent news
         \<and> list_all2 keeps_likes (posts (default_data fixed_clock)) olds)
   \<and> reachable mixed_doc (toggle_like (toggle_like mixed_doc 2 7) 2 2)
   \<and> likes_consistent (posts mixed_doc ! 0)
   \<and> likes_consistent (posts (toggle_like (toggle_like mixed_doc 2 7) 2 2) ! 0)"
proof -
  let ?d1 = "toggle_like (toggle_like (create_post (default_data fixed_clock) (default_user ''t'')
      ''first'' None (fixed_clock 8)) 4 7) 1 7"
  let ?d2 = "toggle_like (toggle_like mixed_doc 2 7) 2 2"
  have r1: "reachable (default_data fixed_clock) ?d1"
    by (intro reachable.toggled reachable.created reachable.start)
  have r2: "reachable mixed_doc ?d2"
    by (intro reachable.toggled reachable.start)
  have c0: "likes_consistent (posts mixed_doc ! 0)"
    by (simp add: mixed_doc_def likes_consistent_def get_liked_by_def)
  from likes_consistent_kept [OF r2] obtain news olds where
    split: "posts ?d2 = news @ olds" and kept: "list_all2 keeps_likes (posts mixed_doc) olds"
    by blast
  have "length (posts ?d2) = 2" "length (posts mixed_doc) = 2"
    by (simp_all add: mixed_doc_def toggle_like_def scenario_post_def)
  with split list_all2_lengthD [OF kept] have "news = []" by simp
  with split kept have "list_all2 keeps_likes (posts mixed_doc) (posts ?d2)" by simp
  then have "keeps_likes (posts mixed_doc ! 0) (posts ?d2 ! 0)"
    by (rule list_all2_nthD) (simp add: mixed_doc_def)
  with c0 have c2: "likes_consistent (posts ?d2 ! 0)" by (simp add: keeps_likes_def)
  from r1 likes_consistent_kept [OF r1] r2 c0 c2 show ?thesis by (intro conjI)
qed

theorem seeded_likes_counterexample:
  "likes (default_posts fixed_clock ! 0) = 42
   \<and> length (get_liked_by (default_posts fixed_clock ! 0)) = 0
   \<and> \<not> doc_likes_consistent (default_data fixed_clock)"
  by (simp add: default_data_def default_posts_def doc_likes_consistent_def
      likes_consistent_def get_liked_by_def)


subsection \<open>Toggling twice\<close>

lemma not_in_remove1_once:
  "count_list xs x \<le> 1 \<Longrightarrow> x \<notin> set (remove1 x xs)"
  by (induction xs) (auto simp: count_list_0_iff split: if_splits)

lemma toggle_like_post_twice_likes:
  assumes "count_list (get_liked_by p) uid \<le> 1"
      and "uid \<in> set (get_liked_by p) \<longrightarrow> 1 \<le> likes p"
      and "uid \<notin> set (get_liked_by p) \<longrightarrow> 0 \<le> likes p"
  shows "likes (toggle_like_post uid (toggle_like_post uid p)) = likes p"
  using assms not_in_remove1_once [of "get_liked_by p" uid]
  by (auto simp: toggle_like_post_def)

lemma insert_remove1_set: "x \<in> set xs \<Longrightarrow> insert x (set (remove1 x xs)) = set xs"
  by (induction xs) auto

lemma toggle_like_post_twice_set:
  assumes "count_list (get_liked_by p) uid \<le> 1"
  shows "set (get_liked_by (toggle_like_post uid (toggle_like_post uid p))) = set (get_liked_by p)"
proof (cases "uid \<in> set (get_liked_by p)")
  case True
  moreover from assms have "uid \<notin> set (remove1 uid (get_liked_by p))"
    by (rule not_in_remove1_once)
  ultimately show ?thesis
    by (simp add: toggle_like_post_def insert_remove1_set)
next
  case False
  then show ?thesis
    by (simp add: toggle_like_post_def remove1_append)
qed


text \<open>
  C2. The claim is that two toggles by the same user restore the like count and the
  liker set of the post, for every document. The count is floored at zero, so a post
  whose count is 0 while the user is recorded as a liker ends with a count of 1; and
  \<^verbatim>\<open>list.remove\<close> deletes one occurrence only. The statement that holds: when the
  user occurs at most once in the liker list of the first post with the id, and the count
  is at least 1 if the user is a liker and at least 0 otherwise, two toggles return that
  post to its count and to its set of likers.
\<close>

theorem toggle_like_twice:
  assumes found: "find (\<lambda>q. post_id q = pid) (posts d) = Some p"
      and once: "count_list (get_liked_by p) uid \<le> 1"
      and liker: "uid \<in> set (get_liked_by p) \<longrightarrow> 1 \<le> likes p"
      and nonliker: "uid \<notin> set (get_liked_by p) \<longrightarrow> 0 \<le> likes p"
  shows "\<exists>p'. find (\<lambda>q. post_id q = pid) (posts (toggle_like (toggle_like d pid uid) pid uid)) = Some p'
           \<and> likes p' = likes p \<and> set (get_liked_by p') = set (get_liked_by p)"
proof -
  from find_post_split [OF found] obtain pre suf
    where split: "posts d = pre @ p # suf" and pre: "pid \<notin> post_id ` set pre" and p: "post_id p = pid"
    by blast
  let ?p1 = "toggle_like_post uid p"
  let ?p2 = "toggle_like_post uid ?p1"
  have one: "posts (toggle_like d pid uid) = pre @ ?p1 # suf"
    using split pre p by (simp add: toggle_like_def toggle_like_posts_first)
  have two: "posts (toggle_like (toggle_like d pid uid) pid uid) = pre @ ?p2 # suf"
    using one pre p by (simp add: toggle_like_def toggle_like_posts_first)
  have "find (\<lambda>q. post_id q = pid) (pre @ ?p2 # suf) = Some ?p2"
    using pre p by (simp add: find_post_first)
  moreover have "likes ?p2 = likes p"
    using once liker nonliker by (rule toggle_like_post_twice_likes)
  moreover have "set (get_liked_by ?p2) = set (get_liked_by p)"
    using once by (rule toggle_like_post_twice_set)
  ultimately show ?thesis using two by simp
qed

theorem toggle_like_twice_witness:
  "find (\<lambda>q. post_id q = 1) (posts scenario_doc) = Some scenario_post
   \<and> (\<exists>p'. find (\<lambda>q. post_id q = 1) (posts (toggle_like (toggle_like scenario_doc 1 5) 1 5)) = Some p'
           \<and> likes p' = 2 \<and> set (get_liked_by p') = {})"
proof -
  have f: "find (\<lambda>q. post_id q = 1) (posts scenario_doc) = Some scenario_post"
    by (simp add: scenario_doc_def scenario_post_def)
  have c: "count_list (get_liked_by scenario_post) 5 \<le> 1"
    by (simp add: scenario_post_def get_liked_by_def)
  have l: "5 \<in> set (get_liked_by scenario_post) \<longrightarrow> 1 \<le> likes scenario_post"
    by (simp add: scenario_post_def get_liked_by_def)
  have n: "5 \<notin> set (get_liked_by scenario_post) \<longrightarrow> 0 \<le> likes scenario_post"
    by (simp add: scenario_post_def get_liked_by_def)
  have "likes scenario_post = 2" "get_liked_by scenario_post = []"
    by (simp_all add: scenario_post_def get_liked_by_def)
  with f toggle_like_twice [OF f c l n] show ?thesis by simp
qed

theorem toggle_like_twice_counterexample:
  "find (\<lambda>q. post_id q = 1) (posts stale_doc) = Some stale_post
   \<and> likes stale_post = 0 \<and> get_liked_by stale_post = [5]
   \<and> posts (toggle_like (toggle_like stale_doc 1 5) 1 5) = [stale_post\<lparr>likes := 1\<rparr>]"
  by (simp add: stale_doc_def stale_post_def toggle_like_def toggle_like_post_def get_liked_by_def)


text \<open>
  The conditions of the double toggle hold in every document that the three mutations
  reach from the seeded one: there no liker is recorded twice and the count is at least
  the number of recorded likers.
\<close>

lemma likes_bounded_toggle_like_post: "likes_bounded p \<Longrightarrow> likes_bounded (toggle_like_post uid p)"
  by (auto simp: likes_bounded_def toggle_like_post_def length_remove1
      dest: length_pos_if_in_set)

lemma likes_bounded_add_comment_post: "likes_bounded p \<Longrightarrow> likes_bounded (add_comment_post c p)"
  by (simp add: likes_bounded_def add_comment_post_def)

lemma likes_bounded_new_post: "likes_bounded (new_post d u caption img now)"
  by (simp add: likes_bounded_def new_post_def get_liked_by_def)

lemma likes_bounded_toggle_like_posts:
  "list_all likes_bounded ps \<Longrightarrow> list_all likes_bounded (toggle_like_posts pid uid ps)"
  by (induction ps) (auto simp: likes_bounded_toggle_like_post)

lemma likes_bounded_add_comment_posts:
  "list_all likes_bounded ps \<Longrightarrow> list_all likes_bounded (add_comment_posts pid c ps)"
  by (induction ps) (auto simp: likes_bounded_add_comment_post)

lemma likes_bounded_default: "list_all likes_bounded (posts (default_data ts))"
  by (simp add: default_data_def default_posts_def likes_bounded_def get_liked_by_def)

lemma likes_bounded_reachable:
  "reachable d d' \<Longrightarrow> list_all likes_bounded (posts d) \<Longrightarrow> list_all likes_bounded (posts d')"
proof (induction rule: reachable.induct)
  case start
  then show ?case by simp
next
  case (created d' u caption img now)
  then show ?case by (simp add: create_post_def likes_bounded_new_post)
next
  case (toggled d' pid uid)
  then show ?case by (simp add: toggle_like_def likes_bounded_toggle_like_posts)
next
  case (commented d' pid u ctext now)
  then show ?case by (simp add: add_comment_def likes_bounded_add_comment_posts)
qed

lemma count_list_distinct: "distinct xs \<Longrightarrow> count_list xs x \<le> 1"
  by (induction xs) (auto simp: count_list_0_iff)

lemma likes_bounded_twice_conditions:
  assumes "likes_bounded p"
  shows "count_list (get_liked_by p) uid \<le> 1"
    and "uid \<in> set (get_liked_by p) \<longrightarrow> 1 \<le> likes p"
    and "uid \<notin> set (get_liked_by p) \<longrightarrow> 0 \<le> likes p"
proof -
  from assms have d: "distinct (get_liked_by p)" and b: "int (length (get_liked_by p)) \<le> likes p"
    by (simp_all add: likes_bounded_def)
  from d show "count_list (get_liked_by p) uid \<le> 1"
    by (rule count_list_distinct)
  show "uid \<in> set (get_liked_by p) \<longrightarrow> 1 \<le> likes p"
  proof
    assume "uid \<in> set (get_liked_by p)"
    then have "0 < length (get_liked_by p)" by (rule length_pos_if_in_set)
    with b show "1 \<le> likes p" by linarith
  qed
  from b show "uid \<notin> set (get_liked_by p) \<longrightarrow> 0 \<le> likes p"
    by auto
qed

lemma seeded_reachable_twice_conditions:
  assumes "reachable (default_data ts) d" and "find (\<lambda>q. post_id q = pid) (posts d) = Some p"
  shows "count_list (get_liked_by p) uid \<le> 1"
    and "uid \<in> set (get_liked_by p) \<longrightarrow> 1 \<le> likes p"
    and "uid \<notin> set (get_liked_by p) \<longrightarrow> 0 \<le> likes p"
proof -
  from assms(1) have "list_all likes_bounded (posts d)"
    by (rule likes_bounded_reachable) (rule likes_bounded_default)
  moreover from assms(2) have "p \<in> set (posts d)"
    by (auto dest: find_post_split)
  ultimately have "likes_bounded p" by (simp add: list_all_iff)
  then show "count_list (get_liked_by p) uid \<le> 1"
    and "uid \<in> set (get_liked_by p) \<longrightarrow> 1 \<le> likes p"
    and "uid \<notin> set (get_liked_by p) \<longrightarrow> 0 \<le> likes p"
    by (rule likes_bounded_twice_conditions)+
qed


subsection \<open>One toggle\<close>

text \<open>
  C3. \<^verbatim>\<open>toggleLike\<close> finds the first post with the id. If the user is in its liker
  list, one occurrence of the user is removed and the count becomes
  \<open>max 0 (likes - 1)\<close>; otherwise the user is appended and the count grows by one. All
  other posts and all other fields stay as they are, and a document without such a post
  is returned unchanged. The witness is the scenario of the specification: likes 2 and
  no liker, user 5, gives likes 3 and \<open>[5]\<close>, and again likes 2 and \<open>[]\<close>.
\<close>

theorem toggle_like_spec:
  "(pid \<notin> post_id ` set (posts d) \<longrightarrow> toggle_like d pid uid = d)
   \<and> (posts d = pre @ p # suf \<and> pid \<notin> post_id ` set pre \<and> post_id p = pid
        \<and> uid \<in> set (get_liked_by p) \<longrightarrow>
      toggle_like d pid uid =
        d\<lparr>posts := pre @ p\<lparr>liked_by := Some (remove1 uid (get_liked_by p)),
                              likes := max 0 (likes p - 1)\<rparr> # suf\<rparr>)
   \<and> (posts d = pre @ p # suf \<and> pid \<notin> post_id ` set pre \<and> post_id p = pid
        \<and> uid \<notin> set (get_liked_by p) \<longrightarrow>
      toggle_like d pid uid =
        d\<lparr>posts := pre @ p\<lparr>liked_by := Some (get_liked_by p @ [uid]),
                              likes := likes p + 1\<rparr> # suf\<rparr>)"
  by (simp add: toggle_like_def toggle_like_posts_absent toggle_like_posts_first
      toggle_like_post_def)

theorem toggle_like_spec_witness:
  "posts scenario_doc = [] @ scenario_post # [] \<and> post_id scenario_post = 1
   \<and> 5 \<notin> set (get_liked_by scenario_post)
   \<and> toggle_like scenario_doc 1 5
       = scenario_doc\<lparr>posts := [scenario_post\<lparr>liked_by := Some [5], likes := 3\<rparr>]\<rparr>
   \<and> toggle_like (toggle_like scenario_doc 1 5) 1 5
       = scenario_doc\<lparr>posts := [scenario_post\<lparr>liked_by := Some [], likes := 2\<rparr>]\<rparr>
   \<and> toggle_like scenario_doc 7 5 = scenario_doc"
proof -
  let ?liked = "scenario_post\<lparr>liked_by := Some [5], likes := 3\<rparr>"
  let ?d1 = "scenario_doc\<lparr>posts := [?liked]\<rparr>"
  have split: "posts scenario_doc = [] @ scenario_post # []" "post_id scenario_post = 1"
    and absent: "5 \<notin> set (get_liked_by scenario_post)" "(7::int) \<notin> post_id ` set (posts scenario_doc)"
    and vals: "get_liked_by scenario_post = []" "likes scenario_post = 2"
    by (simp_all add: scenario_doc_def scenario_post_def get_liked_by_def)
  have first: "toggle_like scenario_doc 1 5 = ?d1"
    using toggle_like_spec [of 1 scenario_doc 5 "[]" scenario_post "[]"] split absent vals by simp
  have split1: "posts ?d1 = [] @ ?liked # []" "post_id ?liked = 1" "5 \<in> set (get_liked_by ?liked)"
    by (simp_all add: scenario_post_def get_liked_by_def)
  have second: "toggle_like ?d1 1 5
      = scenario_doc\<lparr>posts := [scenario_post\<lparr>liked_by := Some [], likes := 2\<rparr>]\<rparr>"
    using toggle_like_spec [of 1 ?d1 5 "[]" ?liked "[]"] split1 by (simp add: get_liked_by_def)
  have third: "toggle_like scenario_doc 7 5 = scenario_doc"
    using toggle_like_spec [of 7 scenario_doc 5] absent by blast
  from split absent first second third show ?thesis by simp
qed


subsection \<open>Post ids\<close>

lemma next_post_id_Max:
  "next_post_id d = (if posts d = [] then 1 else Max (post_id ` set (posts d)) + 1)"
proof (cases "posts d")
  case Nil
  then show ?thesis by (simp add: next_post_id_def max_default_def)
next
  case (Cons p ps)
  have "fold max (map post_id ps) (post_id p) = Max (set (post_id p # map post_id ps))"
    by (rule Max.set_eq_fold [symmetric])
  then show ?thesis using Cons by (simp add: next_post_id_def max_default_def)
qed

lemma next_post_id_greater: "p \<in> set (posts d) \<Longrightarrow> post_id p < next_post_id d"
proof -
  assume p: "p \<in> set (posts d)"
  then have "posts d \<noteq> []" by auto
  moreover have "post_id p \<le> Max (post_id ` set (posts d))" using p by simp
  ultimately show ?thesis by (simp add: next_post_id_Max)
qed

lemma create_posts_news:
  "\<exists>news. posts (create_posts d reqs) = news @ posts d \<and> length news = length reqs
     \<and> sorted_wrt (<) (map post_id (rev news))
     \<and> (\<forall>n\<in>set news. \<forall>p\<in>set (posts d). post_id p < post_id n)"
proof (induction reqs arbitrary: d)
  case Nil
  show ?case by simp
next
  case (Cons r rs)
  obtain u caption img now where r: "r = (u, caption, img, now)" by (cases r) auto
  let ?np = "new_post d u caption img now"
  let ?d1 = "create_post d u caption img now"
  have d1: "posts ?d1 = ?np # posts d" by (simp add: create_post_def)
  from Cons.IH [of ?d1] obtain news where
    news: "posts (create_posts ?d1 rs) = news @ posts ?d1" "length news = length rs"
      "sorted_wrt (<) (map post_id (rev news))"
      "\<forall>n\<in>set news. \<forall>p\<in>set (posts ?d1). post_id p < post_id n"
    by blast
  have np_old: "\<forall>p\<in>set (posts d). post_id p < post_id ?np"
    by (simp add: new_post_def next_post_id_greater)
  have "posts (create_posts d (r # rs)) = (news @ [?np]) @ posts d"
    using news(1) d1 r by simp
  moreover have "length (news @ [?np]) = length (r # rs)" using news(2) by simp
  moreover have "sorted_wrt (<) (map post_id (rev (news @ [?np])))"
    using news(3,4) d1 by simp
  moreover have "\<forall>n\<in>set (news @ [?np]). \<forall>p\<in>set (posts d). post_id p < post_id n"
    using news(4) d1 np_old by auto
  ultimately show ?case by blast
qed

lemma create_posts_distinct:
  assumes "distinct (map post_id (posts d))"
  shows "distinct (map post_id (posts (create_posts d reqs)))"
proof -
  from create_posts_news [of d reqs] obtain news where
    news: "posts (create_posts d reqs) = news @ posts d"
      "sorted_wrt (<) (map post_id (rev news))"
      "\<forall>n\<in>set news. \<forall>p\<in>set (posts d). post_id p < post_id n"
    by blast
  have "distinct (map post_id (rev news))"
    using news(2) by (simp add: strict_sorted_iff)
  then have "distinct (map post_id news)" by (simp add: rev_map [symmetric])
  moreover have "set (map post_id news) \<inter> set (map post_id (posts d)) = {}"
    using news(3) by fastforce
  ultimately show ?thesis using assms news(1) by simp
qed


text \<open>
  C4. The id of a new post is 1 on a document without posts and the greatest id plus 1
  otherwise, so it is greater than every id in the document. After any sequence of
  \<^verbatim>\<open>createPost\<close> calls the new posts stand before the old ones, their ids increase
  strictly in the order of the calls and exceed all old ids, and ids that were unique
  remain unique.
\<close>

theorem post_ids_increasing:
  "post_id (posts (create_post d u caption img now) ! 0)
     = (if posts d = [] then 1 else Max (post_id ` set (posts d)) + 1)
   \<and> (\<forall>p\<in>set (posts d). post_id p < post_id (posts (create_post d u caption img now) ! 0))
   \<and> (\<exists>news. posts (create_posts d reqs) = news @ posts d \<and> length news = length reqs
          \<and> sorted_wrt (<) (map post_id (rev news))
          \<and> (\<forall>n\<in>set news. \<forall>p\<in>set (posts d). post_id p < post_id n))
   \<and> (distinct (map post_id (posts d)) \<longrightarrow> distinct (map post_id (posts (create_posts d reqs))))"
proof -
  have "post_id (posts (create_post d u caption img now) ! 0) = next_post_id d"
    by (simp add: create_post_def new_post_def)
  then show ?thesis
    using next_post_id_Max [of d] next_post_id_greater [of _ d] create_posts_news [of d reqs]
      create_posts_distinct [of d reqs]
    by simp
qed

theorem post_ids_increasing_witness:
  "distinct (map post_id (posts (default_data fixed_clock)))
   \<and> post_id (posts (create_post (default_data fixed_clock) (default_user ''t'') ''a'' None
        (fixed_clock 1)) ! 0) = 4
   \<and> map post_id (posts (create_posts (default_data fixed_clock)
        [(default_user ''t'', ''a'', None, fixed_clock 1), (default_user ''t'', ''b'', None, fixed_clock 2)]))
      = [5, 4, 1, 2, 3]
   \<and> distinct (map post_id (posts (create_posts (default_data fixed_clock)
        [(default_user ''t'', ''a'', None, fixed_clock 1), (default_user ''t'', ''b'', None, fixed_clock 2)])))"
proof -
  let ?reqs = "[(default_user ''t'', ''a'', None, fixed_clock 1), (default_user ''t'', ''b'', None, fixed_clock 2)]"
  have ids: "map post_id (posts (default_data fixed_clock)) = [1, 2, 3]"
    by (simp add: default_data_def default_posts_def)
  then have d: "distinct (map post_id (posts (default_data fixed_clock)))" by simp
  have nonempty: "posts (default_data fixed_clock) \<noteq> []"
    by (simp add: default_data_def default_posts_def)
  have "post_id ` set (posts (default_data fixed_clock)) = {1, 2, 3}"
    by (auto simp add: default_data_def default_posts_def)
  then have mx: "Max (post_id ` set (posts (default_data fixed_clock))) = 3" by simp
  note claim = post_ids_increasing [of "default_data fixed_clock" "default_user ''t''" "''a''" None
      "fixed_clock 1" ?reqs]
  from claim have "post_id (posts (create_post (default_data fixed_clock) (default_user ''t'') ''a'' None
        (fixed_clock 1)) ! 0)
      = (if posts (default_data fixed_clock) = [] then 1
         else Max (post_id ` set (posts (default_data fixed_clock))) + 1)"
    by (rule conjunct1)
  with nonempty mx have nxt: "post_id (posts (create_post (default_data fixed_clock)
      (default_user ''t'') ''a'' None (fixed_clock 1)) ! 0) = 4" by simp
  from claim d have dis: "distinct (map post_id (posts (create_posts (default_data fixed_clock) ?reqs)))"
    by blast
  have "map post_id (posts (create_posts (default_data fixed_clock) ?reqs)) = [5, 4, 1, 2, 3]"
    by (simp add: create_post_def new_post_def next_post_id_def max_default_def
        default_data_def default_posts_def)
  with d nxt dis show ?thesis by simp
qed


subsection \<open>Creating a post\<close>

text \<open>
  C5. \<^verbatim>\<open>createPost\<close> puts one new post at position 0: it has the next id, the
  author's id and name, the caption, the image path, no likes, an empty liker list, no
  comments and the timestamp. The former posts follow in their order, each one position
  later, and the rest of the document is untouched. On a document whose greatest id is 3
  the new post has id 4.
\<close>

theorem create_post_spec:
  "posts (create_post d u caption img now) ! 0 =
      \<lparr>post_id = next_post_id d, post_user_id = user_id u, post_username = username u,
       content = caption, image_path = img, likes = 0, liked_by = Some [],
       comments = Some [], post_created_at = now\<rparr>
   \<and> length (posts (create_post d u caption img now)) = length (posts d) + 1
   \<and> (\<forall>i<length (posts d). posts (create_post d u caption img now) ! (i + 1) = posts d ! i)
   \<and> current_user (create_post d u caption img now) = current_user d
   \<and> users (create_post d u caption img now) = users d
   \<and> notifications (create_post d u caption img now) = notifications d
   \<and> (posts d \<noteq> [] \<and> Max (post_id ` set (posts d)) = 3 \<longrightarrow>
        post_id (posts (create_post d u caption img now) ! 0) = 4)"
  by (simp add: create_post_def new_post_def next_post_id_Max)

theorem create_post_spec_witness:
  "posts (default_data fixed_clock) \<noteq> []
   \<and> Max (post_id ` set (posts (default_data fixed_clock))) = 3
   \<and> post_id (posts (create_post (default_data fixed_clock) (default_user ''t'') ''caption''
        (Some ''blog_images/20240501_100000_a.png'') (fixed_clock 8)) ! 0) = 4
   \<and> (0::nat) < length (posts (default_data fixed_clock))
   \<and> posts (create_post (default_data fixed_clock) (default_user ''t'') ''caption''
        (Some ''blog_images/20240501_100000_a.png'') (fixed_clock 8)) ! (0 + 1)
      = posts (default_data fixed_clock) ! 0"
proof -
  have nonempty: "posts (default_data fixed_clock) \<noteq> []"
    and len: "(0::nat) < length (posts (default_data fixed_clock))"
    and ids: "post_id ` set (posts (default_data fixed_clock)) = {1, 2, 3}"
    by (auto simp add: default_data_def default_posts_def)
  from ids have mx: "Max (post_id ` set (posts (default_data fixed_clock))) = 3" by simp
  note claim = create_post_spec [of "default_data fixed_clock" "default_user ''t''" "''caption''"
      "Some ''blog_images/20240501_100000_a.png''" "fixed_clock 8"]
  from claim nonempty mx have "post_id (posts (create_post (default_data fixed_clock) (default_user ''t'')
      ''caption'' (Some ''blog_images/20240501_100000_a.png'') (fixed_clock 8)) ! 0) = 4"
    by blast
  moreover from claim len have "posts (create_post (default_data fixed_clock) (default_user ''t'')
      ''caption'' (Some ''blog_images/20240501_100000_a.png'') (fixed_clock 8)) ! (0 + 1)
      = posts (default_data fixed_clock) ! 0"
    by blast
  ultimately show ?thesis using nonempty mx len by blast
qed


subsection \<open>Adding comments\<close>

lemma add_comments_first:
  "posts d = pre @ p # suf \<Longrightarrow> pid \<notin> post_id ` set pre \<Longrightarrow> post_id p = pid \<Longrightarrow> reqs \<noteq> [] \<Longrightarrow>
   add_comments d pid reqs =
     d\<lparr>posts := pre @ p\<lparr>comments := Some (get_comments p
            @ map (\<lambda>(u, ctext, now). new_comment u ctext now) reqs)\<rparr> # suf\<rparr>"
proof (induction reqs arbitrary: d p)
  case Nil
  then show ?case by simp
next
  case (Cons r rs)
  obtain u ctext now where r: "r = (u, ctext, now)" by (cases r) auto
  let ?c = "new_comment u ctext now"
  let ?p1 = "add_comment_post ?c p"
  let ?d1 = "add_comment d pid u ctext now"
  have d1: "?d1 = d\<lparr>posts := pre @ ?p1 # suf\<rparr>"
    using Cons.prems by (simp add: add_comment_def add_comment_posts_first)
  show ?case
  proof (cases "rs = []")
    case True
    with d1 r show ?thesis by (simp add: add_comment_post_def)
  next
    case False
    have "add_comments ?d1 pid rs =
        ?d1\<lparr>posts := pre @ ?p1\<lparr>comments := Some (get_comments ?p1
            @ map (\<lambda>(u, ctext, now). new_comment u ctext now) rs)\<rparr> # suf\<rparr>"
      using Cons.prems False d1 by (intro Cons.IH) simp_all
    with d1 r show ?thesis by (simp add: add_comment_post_def)
  qed
qed


text \<open>
  C7. \<^verbatim>\<open>addComment\<close> appends one comment, with the user's id and name, the text and
  the timestamp, to the comments of the first post with the id; the comments that were
  there keep their places, and so do all other posts. A sequence of calls on that post
  appends the comments in the order of the calls. A document without such a post is
  returned unchanged.
\<close>

theorem add_comment_spec:
  "(pid \<notin> post_id ` set (posts d) \<longrightarrow> add_comment d pid u ctext now = d)
   \<and> (posts d = pre @ p # suf \<and> pid \<notin> post_id ` set pre \<and> post_id p = pid \<longrightarrow>
        add_comment d pid u ctext now =
          d\<lparr>posts := pre @ p\<lparr>comments := Some (get_comments p @
            [\<lparr>comment_user_id = user_id u, comment_username = username u,
              comment_text = ctext, comment_created_at = now\<rparr>])\<rparr> # suf\<rparr>)
   \<and> (posts d = pre @ p # suf \<and> pid \<notin> post_id ` set pre \<and> post_id p = pid \<and> reqs \<noteq> [] \<longrightarrow>
        add_comments d pid reqs =
          d\<lparr>posts := pre @ p\<lparr>comments := Some (get_comments p
            @ map (\<lambda>(u, ctext, now). new_comment u ctext now) reqs)\<rparr> # suf\<rparr>)"
  by (simp add: add_comment_def add_comment_posts_absent add_comment_posts_first
      add_comment_post_def new_comment_def add_comments_first)

theorem add_comment_spec_witness:
  "posts scenario_doc = [] @ scenario_post # [] \<and> 1 \<notin> post_id ` set [] \<and> post_id scenario_post = 1
   \<and> 9 \<notin> post_id ` set (posts scenario_doc)
   \<and> add_comment scenario_doc 9 (default_user ''t'') ''nice'' (fixed_clock 1) = scenario_doc
   \<and> add_comment scenario_doc 1 (default_user ''t'') ''nice'' (fixed_clock 1)
       = scenario_doc\<lparr>posts := [scenario_post\<lparr>comments := Some
           [\<lparr>comment_user_id = 1, comment_username = ''harini'', comment_text = ''nice'',
             comment_created_at = fixed_clock 1\<rparr>]\<rparr>]\<rparr>
   \<and> add_comments scenario_doc 1
         [(default_user ''t'', ''nice'', fixed_clock 1), (default_user ''t'', ''again'', fixed_clock 2)]
       = scenario_doc\<lparr>posts := [scenario_post\<lparr>comments := Some
           [\<lparr>comment_user_id = 1, comment_username = ''harini'', comment_text = ''nice'',
             comment_created_at = fixed_clock 1\<rparr>,
            \<lparr>comment_user_id = 1, comment_username = ''harini'', comment_text = ''again'',
             comment_created_at = fixed_clock 2\<rparr>]\<rparr>]\<rparr>"
proof -
  let ?reqs = "[(default_user ''t'', ''nice'', fixed_clock 1), (default_user ''t'', ''again'', fixed_clock 2)]"
  have split: "posts scenario_doc = [] @ scenario_post # []" "1 \<notin> post_id ` set []"
      "post_id scenario_post = 1"
    and absent: "9 \<notin> post_id ` set (posts scenario_doc)"
    and cs: "get_comments scenario_post = []"
    by (simp_all add: scenario_doc_def scenario_post_def get_comments_def)
  have u: "user_id (default_user ''t'') = 1" "username (default_user ''t'') = ''harini''"
    by (simp_all add: default_user_def)
  have "add_comment scenario_doc 9 (default_user ''t'') ''nice'' (fixed_clock 1) = scenario_doc"
    using add_comment_spec [of 9 scenario_doc "default_user ''t''" "''nice''" "fixed_clock 1"] absent
    by blast
  moreover have "add_comment scenario_doc 1 (default_user ''t'') ''nice'' (fixed_clock 1)
       = scenario_doc\<lparr>posts := [scenario_post\<lparr>comments := Some
           [\<lparr>comment_user_id = 1, comment_username = ''harini'', comment_text = ''nice'',
             comment_created_at = fixed_clock 1\<rparr>]\<rparr>]\<rparr>"
    using add_comment_spec [of 1 scenario_doc "default_user ''t''" "''nice''" "fixed_clock 1"
        "[]" scenario_post "[]"] split cs u
    by simp
  moreover have "add_comments scenario_doc 1 ?reqs
       = scenario_doc\<lparr>posts := [scenario_post\<lparr>comments := Some
           [\<lparr>comment_user_id = 1, comment_username = ''harini'', comment_text = ''nice'',
             comment_created_at = fixed_clock 1\<rparr>,
            \<lparr>comment_user_id = 1, comment_username = ''harini'', comment_text = ''again'',
             comment_created_at = fixed_clock 2\<rparr>]\<rparr>]\<rparr>"
    using add_comment_spec [of 1 scenario_doc "default_user ''t''" "''nice''" "fixed_clock 1"
        "[]" scenario_post "[]" ?reqs] split cs u
    by (simp add: new_comment_def del: add_comments.simps)
  ultimately show ?thesis using split absent by simp
qed


section \<open>The reader reads what the writer wrote\<close>

subsection \<open>Integers\<close>

lemma of_char_digit_char: "d < 10 \<Longrightarrow> (of_char (digit_char d) :: nat) = 48 + d"
  by (simp add: digit_char_def)

lemma is_digit_digit_char: "d < 10 \<Longrightarrow> is_digit (digit_char d)"
  by (simp add: is_digit_def of_char_digit_char)

lemma digit_val_digit_char: "d < 10 \<Longrightarrow> digit_val (digit_char d) = d"
  by (simp add: digit_val_def of_char_digit_char)

lemma show_nat_nonempty: "show_nat n \<noteq> []"
  by (subst show_nat.simps) simp

lemma show_nat_digits: "c \<in> set (show_nat n) \<Longrightarrow> is_digit c"
proof (induction n arbitrary: c rule: show_nat.induct)
  case (1 n)
  show ?case
  proof (cases "n < 10")
    case True
    with "1.prems" show ?thesis
      by (subst (asm) show_nat.simps) (auto simp: is_digit_digit_char)
  next
    case False
    with "1.prems" have "c \<in> set (show_nat (n div 10)) \<or> c = digit_char (n mod 10)"
      by (subst (asm) show_nat.simps) auto
    with False "1.IH" show ?thesis
      by (auto simp: is_digit_digit_char)
  qed
qed

lemma read_nat_snoc: "read_nat (ds @ [c]) = 10 * read_nat ds + digit_val c"
  by (simp add: read_nat_def)

lemma read_nat_show_nat: "read_nat (show_nat n) = n"
proof (induction n rule: show_nat.induct)
  case (1 n)
  show ?case
  proof (cases "n < 10")
    case True
    then show ?thesis
      by (subst show_nat.simps) (simp add: read_nat_def digit_val_digit_char)
  next
    case False
    with "1.IH" show ?thesis
      by (subst show_nat.simps) (simp add: read_nat_snoc digit_val_digit_char)
  qed
qed

lemma show_nat_no_leading_zero: "0 < n \<Longrightarrow> hd (show_nat n) \<noteq> CHR ''0''"
proof (induction n rule: show_nat.induct)
  case (1 n)
  show ?case
  proof (cases "n < 10")
    case True
    have "digit_char n \<noteq> CHR ''0''"
    proof
      assume "digit_char n = CHR ''0''"
      then have "(of_char (digit_char n) :: nat) = of_char CHR ''0''" by simp
      with True "1.prems" show False by (simp add: of_char_digit_char)
    qed
    with True show ?thesis by (subst show_nat.simps) simp
  next
    case False
    then have "0 < n div 10" by simp
    with False "1.IH" have "hd (show_nat (n div 10)) \<noteq> CHR ''0''" by simp
    with False show ?thesis
      by (subst show_nat.simps) (simp add: show_nat_nonempty)
  qed
qed

lemma show_nat_zero: "show_nat 0 = ''0''"
  by code_simp

lemma takeWhile_digits_item_end: "item_end rest \<Longrightarrow> takeWhile is_digit rest = []"
  by (cases rest) (auto simp: item_end_def is_digit_def newline_def)

lemma takeWhile_show_nat:
  "item_end rest \<Longrightarrow> takeWhile is_digit (show_nat n @ rest) = show_nat n"
  by (simp add: show_nat_digits takeWhile_digits_item_end)

lemma dropWhile_show_nat:
  "item_end rest \<Longrightarrow> dropWhile is_digit (show_nat n @ rest) = rest"
  using takeWhile_digits_item_end [of rest]
  by (cases rest) (auto simp: show_nat_digits)

lemma item_end_not_fraction:
  "item_end rest \<Longrightarrow> \<not> starts_with ''.'' rest \<and> \<not> starts_with ''e'' rest \<and> \<not> starts_with ''E'' rest"
  by (cases rest) (auto simp: item_end_def starts_with_def newline_def)

lemma show_nat_first: "\<exists>c cs. show_nat n = c # cs \<and> is_digit c"
  using show_nat_nonempty [of n] show_nat_digits [of _ n]
  by (cases "show_nat n") auto

lemma show_nat_not_minus: "\<not> starts_with ''-'' (show_nat n @ rest)"
proof -
  from show_nat_first [of n] obtain c cs where "show_nat n = c # cs" "is_digit c" by blast
  then show ?thesis by (auto simp: starts_with_def is_digit_def)
qed

lemma show_nat_leading: "\<not> (1 < length (show_nat n) \<and> hd (show_nat n) = CHR ''0'')"
proof (cases "n = 0")
  case True
  then show ?thesis by (simp add: show_nat_zero)
next
  case False
  then show ?thesis using show_nat_no_leading_zero [of n] by simp
qed

lemma parse_number_show_int:
  assumes "item_end rest"
  shows "parse_number (show_int i @ rest) = Some (JInt i, rest)"
proof (cases "i < 0")
  case True
  then have "show_int i @ rest = CHR ''-'' # show_nat (nat (- i)) @ rest"
    by (simp add: show_int_def)
  moreover have "starts_with ''-'' (CHR ''-'' # show_nat (nat (- i)) @ rest)"
    by (simp add: starts_with_def)
  ultimately show ?thesis
    using assms True show_nat_leading [of "nat (- i)"] item_end_not_fraction [OF assms]
    by (simp add: parse_number_def Let_def takeWhile_show_nat dropWhile_show_nat
        show_nat_nonempty read_nat_show_nat)
next
  case False
  then have "show_int i @ rest = show_nat (nat i) @ rest"
    by (simp add: show_int_def)
  then show ?thesis
    using assms False show_nat_leading [of "nat i"] item_end_not_fraction [OF assms]
      show_nat_not_minus [of "nat i" rest]
    by (simp add: parse_number_def Let_def takeWhile_show_nat dropWhile_show_nat
        show_nat_nonempty read_nat_show_nat)
qed

lemma show_int_first: "\<exists>c cs. show_int i = c # cs \<and> (c = CHR ''-'' \<or> is_digit c)"
  using show_nat_first [of "nat i"] by (auto simp: show_int_def)

lemma parse_value_show_int:
  assumes "item_end rest"
  shows "parse_value (show_int i @ rest) = Some (JInt i, rest)"
proof -
  from show_int_first [of i] obtain c cs
    where c: "show_int i = c # cs" "c = CHR ''-'' \<or> is_digit c" by blast
  then have "c \<noteq> CHR ''['' \<and> c \<noteq> CHR ''{'' \<and> c \<noteq> quote_char
      \<and> c \<noteq> CHR ''n'' \<and> c \<noteq> CHR ''t'' \<and> c \<noteq> CHR ''f''"
    by (auto simp: is_digit_def quote_char_def)
  with c(1) have "parse_value (show_int i @ rest) = parse_number (show_int i @ rest)"
    by (simp add: parse_value.simps parse_atom_def starts_with_def)
  with assms show ?thesis by (simp add: parse_number_show_int)
qed


subsection \<open>Strings\<close>

lemma hex_val_hex_char: "d < 16 \<Longrightarrow> hex_val (hex_char d) = Some d"
  by (auto simp: hex_val_def hex_char_def Let_def)

lemma hex_val_zero: "hex_val CHR ''0'' = Some 0"
  by (simp add: hex_val_def)

lemma read_hex4_control:
  "n < 32 \<Longrightarrow> read_hex4 CHR ''0'' CHR ''0'' (hex_char (n div 16)) (hex_char (n mod 16)) = Some n"
  by (simp add: read_hex4_def hex_val_zero hex_val_hex_char)

lemma parse_string_body_escape:
  assumes "parse_string_body x = Some (s, r)"
  shows "parse_string_body (escape_char c @ x) = Some (c # s, r)"
proof (cases "(of_char c :: nat) < 32 \<and> c \<noteq> newline \<and> c \<noteq> CHR 0x0D \<and> c \<noteq> CHR 0x09
    \<and> c \<noteq> CHR 0x08 \<and> c \<noteq> CHR 0x0C")
  case True
  then have "c \<noteq> quote_char" "c \<noteq> backslash"
    by (auto simp: quote_char_def backslash_def)
  with True have esc: "escape_char c = [backslash, CHR ''u'', CHR ''0'', CHR ''0'',
      hex_char (of_char c div 16), hex_char (of_char c mod 16)]"
    by (simp add: escape_char_def)
  from True have "read_hex4 CHR ''0'' CHR ''0'' (hex_char (of_char c div 16))
      (hex_char (of_char c mod 16)) = Some (of_char c)"
    by (simp add: read_hex4_control)
  moreover have "(of_char c :: nat) < 128" using True by simp
  ultimately show ?thesis
    using assms esc by (simp add: cons_char_def quote_char_def backslash_def)
next
  case False
  with assms show ?thesis
    by (auto simp: escape_char_def unescape_def cons_char_def quote_char_def backslash_def
        newline_def)
qed

lemma parse_string_body_dump:
  "parse_string_body (concat (map escape_char s) @ quote_char # rest) = Some (s, rest)"
  by (induction s) (simp_all add: parse_string_body_escape)

lemma quote_char_neq: "quote_char \<noteq> CHR ''[''" "quote_char \<noteq> CHR ''{''"
  "quote_char \<noteq> CHR '']''" "quote_char \<noteq> CHR ''}''" "\<not> is_ws quote_char"
  by (simp_all add: quote_char_def is_ws_def newline_def)

lemma parse_value_dump_string:
  "parse_value (dump_string s @ rest) = Some (JString s, rest)"
  by (simp add: dump_string_def parse_value.simps parse_string_body_dump quote_char_neq)


subsection \<open>Lists and dictionaries\<close>

lemma skip_ws_newline_indent: "skip_ws (newline_indent l @ s) = skip_ws s"
proof -
  have "\<And>c. c \<in> set (newline_indent l) \<Longrightarrow> is_ws c"
    by (auto simp: newline_indent_def is_ws_def)
  then show ?thesis
    unfolding skip_ws_def by (rule dropWhile_append2)
qed

lemma skip_ws_first: "\<not> is_ws c \<Longrightarrow> skip_ws (c # s) = c # s"
  by (simp add: skip_ws_def)

lemma skip_ws_space: "skip_ws (CHR '' '' # s) = skip_ws s"
  by (simp add: skip_ws_def is_ws_def)

lemma not_ws: "\<not> is_ws CHR '',''" "\<not> is_ws CHR '']''" "\<not> is_ws CHR ''}''"
  "\<not> is_ws CHR '':''" "\<not> is_ws CHR ''[''" "\<not> is_ws CHR ''{''"
  by (simp_all add: is_ws_def newline_def)

lemma item_end_newline_indent: "item_end (newline_indent l @ s)"
  by (simp add: item_end_def newline_indent_def)

lemma item_end_comma: "item_end (CHR '','' # s)"
  by (simp add: item_end_def)

lemma item_end_Nil: "item_end []"
  by (simp add: item_end_def)

lemma dump_first:
  "\<exists>c cs. dump l j = c # cs \<and> \<not> is_ws c \<and> c \<noteq> CHR '']'' \<and> c \<noteq> CHR ''}''"
proof (cases j)
  case (JInt i)
  from show_int_first [of i] obtain c cs
    where "show_int i = c # cs" "c = CHR ''-'' \<or> is_digit c" by blast
  with JInt show ?thesis by (auto simp: is_ws_def is_digit_def newline_def)
next
  case (JString s)
  then show ?thesis by (simp add: dump_string_def quote_char_neq)
qed (auto simp: is_ws_def newline_def)

lemma skip_ws_dump: "skip_ws (dump l j @ s) = dump l j @ s"
  using dump_first [of l j] by (auto simp: skip_ws_first)

lemma join_first: "xs \<noteq> [] \<Longrightarrow> \<exists>t. join sep xs = hd xs @ t"
proof (cases xs)
  case Nil
  assume "xs \<noteq> []"
  with Nil show ?thesis by simp
next
  case (Cons x ys)
  then show ?thesis by (cases ys) auto
qed

lemma parse_elems_join:
  assumes "\<And>x rest. x \<in> set xs \<Longrightarrow> item_end rest \<Longrightarrow> parse_value (dump l x @ rest) = Some (x, rest)"
      and "xs \<noteq> []"
  shows "parse_elems (newline_indent l @ join (CHR '','' # newline_indent l) (map (dump l) xs)
           @ newline_indent l' @ CHR '']'' # rest) = Some (xs, rest)"
  using assms
proof (induction xs)
  case Nil
  then show ?case by simp
next
  case (Cons x ys)
  show ?case
  proof (cases ys)
    case Nil
    have "parse_value (dump l x @ newline_indent l' @ CHR '']'' # rest)
        = Some (x, newline_indent l' @ CHR '']'' # rest)"
      by (rule Cons.prems(1)) (simp_all add: item_end_newline_indent)
    then show ?thesis
      using Nil
      by (subst parse_elems.simps)
         (simp add: skip_ws_newline_indent skip_ws_dump skip_ws_first is_ws_def newline_def)
  next
    case (Cons y zs)
    let ?more = "newline_indent l @ join (CHR '','' # newline_indent l) (map (dump l) (y # zs))
           @ newline_indent l' @ CHR '']'' # rest"
    have "parse_value (dump l x @ CHR '','' # ?more) = Some (x, CHR '','' # ?more)"
      by (rule Cons.prems(1)) (simp_all add: item_end_comma)
    moreover have "parse_elems ?more = Some (y # zs, rest)"
      using Cons.IH Cons.prems(1) Cons by simp
    ultimately show ?thesis
      using Cons
      by (subst parse_elems.simps)
         (simp add: skip_ws_newline_indent skip_ws_dump skip_ws_first is_ws_def newline_def)
  qed
qed

lemma parse_members_join:
  assumes "\<And>kv rest. kv \<in> set kvs \<Longrightarrow> item_end rest \<Longrightarrow>
             parse_value (dump l (snd kv) @ rest) = Some (snd kv, rest)"
      and "kvs \<noteq> []"
  shows "parse_members (newline_indent l
           @ join (CHR '','' # newline_indent l)
               (map (\<lambda>kv. dump_string (fst kv) @ '': '' @ dump l (snd kv)) kvs)
           @ newline_indent l' @ CHR ''}'' # rest) = Some (kvs, rest)"
  using assms
proof (induction kvs)
  case Nil
  then show ?case by simp
next
  case (Cons kv ys)
  obtain k v where kv: "kv = (k, v)" by (cases kv) auto
  show ?case
  proof (cases ys)
    case Nil
    have "parse_value (dump l v @ newline_indent l' @ CHR ''}'' # rest)
        = Some (v, newline_indent l' @ CHR ''}'' # rest)"
      using Cons.prems(1) [of kv "newline_indent l' @ CHR ''}'' # rest"] kv
      by (simp add: item_end_newline_indent)
    then show ?thesis
      using Nil kv
      by (subst parse_members.simps)
         (simp add: skip_ws_newline_indent skip_ws_dump skip_ws_first not_ws skip_ws_space
            dump_string_def quote_char_neq parse_string_body_dump)
  next
    case (Cons y zs)
    let ?more = "newline_indent l @ join (CHR '','' # newline_indent l)
           (map (\<lambda>kv. dump_string (fst kv) @ '': '' @ dump l (snd kv)) (y # zs))
           @ newline_indent l' @ CHR ''}'' # rest"
    have "parse_value (dump l v @ CHR '','' # ?more) = Some (v, CHR '','' # ?more)"
      using Cons.prems(1) [of kv "CHR '','' # ?more"] kv by (simp add: item_end_comma)
    moreover have "parse_members ?more = Some (y # zs, rest)"
      using Cons.IH Cons.prems(1) Cons by simp
    ultimately show ?thesis
      using Cons kv
      by (subst parse_members.simps)
         (simp add: skip_ws_newline_indent skip_ws_dump skip_ws_first not_ws skip_ws_space
            dump_string_def quote_char_neq parse_string_body_dump)
  qed
qed

lemma dict_set_fresh: "k \<notin> fst ` set acc \<Longrightarrow> dict_set k v acc = acc @ [(k, v)]"
  by (simp add: dict_set_def)

lemma foldl_dict_set_distinct:
  "distinct (map fst (acc @ kvs)) \<Longrightarrow>
   foldl (\<lambda>acc kv. dict_set (fst kv) (snd kv) acc) acc kvs = acc @ kvs"
proof (induction kvs arbitrary: acc)
  case Nil
  then show ?case by simp
next
  case (Cons kv kvs)
  from Cons.prems have fresh: "fst kv \<notin> fst ` set acc" by auto
  from Cons.prems have "distinct (map fst ((acc @ [kv]) @ kvs))" by simp
  then have "foldl (\<lambda>acc kv. dict_set (fst kv) (snd kv) acc) (acc @ [kv]) kvs = (acc @ [kv]) @ kvs"
    by (rule Cons.IH)
  with fresh show ?case by (simp add: dict_set_fresh)
qed

lemma dict_of_pairs_distinct: "distinct (map fst kvs) \<Longrightarrow> dict_of_pairs kvs = kvs"
  using foldl_dict_set_distinct [of "[]" kvs] by (simp add: dict_of_pairs_def)


text \<open>
  Every value is read back from its text, at any indentation level and before any rest
  that starts like the end of an item.
\<close>

lemma parse_value_dump:
  "wf_json j \<Longrightarrow> item_end rest \<Longrightarrow> parse_value (dump l j @ rest) = Some (j, rest)"
proof (induction j arbitrary: l rest)
  case JNull
  show ?case by (simp add: parse_value.simps parse_atom_def starts_with_def quote_char_def)
next
  case (JBool b)
  show ?case by (simp add: parse_value.simps parse_atom_def starts_with_def quote_char_def)
next
  case (JInt i)
  then show ?case by (simp add: parse_value_show_int)
next
  case (JString s)
  show ?case by (simp add: parse_value_dump_string)
next
  case (JArray xs)
  show ?case
  proof (cases "xs = []")
    case True
    then show ?thesis by (simp add: parse_value.simps skip_ws_first is_ws_def newline_def)
  next
    case False
    let ?cs = "newline_indent (Suc l) @ join (CHR '','' # newline_indent (Suc l)) (map (dump (Suc l)) xs)
        @ newline_indent l @ CHR '']'' # rest"
    have elems: "parse_elems ?cs = Some (xs, rest)"
    proof (rule parse_elems_join)
      fix x r assume "x \<in> set xs" "item_end r"
      with JArray.IH JArray.prems(1) show "parse_value (dump (Suc l) x @ r) = Some (x, r)"
        by (simp add: list_all_iff)
    qed (rule False)
    from False join_first [of "map (dump (Suc l)) xs" "CHR '','' # newline_indent (Suc l)"]
    obtain t where "join (CHR '','' # newline_indent (Suc l)) (map (dump (Suc l)) xs)
        = dump (Suc l) (hd xs) @ t"
      by (auto simp: hd_map)
    with dump_first [of "Suc l" "hd xs"] obtain c r where "skip_ws ?cs = c # r" "c \<noteq> CHR '']''"
      by (auto simp: skip_ws_newline_indent skip_ws_first)
    with elems False show ?thesis
      by (simp add: parse_value.simps)
  qed
next
  case (JObject kvs)
  show ?case
  proof (cases "kvs = []")
    case True
    then show ?thesis by (simp add: parse_value.simps skip_ws_first is_ws_def newline_def)
  next
    case False
    let ?cs = "newline_indent (Suc l) @ join (CHR '','' # newline_indent (Suc l))
          (map (\<lambda>kv. dump_string (fst kv) @ '': '' @ dump (Suc l) (snd kv)) kvs)
        @ newline_indent l @ CHR ''}'' # rest"
    have members: "parse_members ?cs = Some (kvs, rest)"
    proof (rule parse_members_join)
      fix kv r assume "kv \<in> set kvs" "item_end r"
      with JObject.IH [of kv "snd kv"] JObject.prems(1)
      show "parse_value (dump (Suc l) (snd kv) @ r) = Some (snd kv, r)"
        by (cases kv) (auto simp: list_all_iff)
    qed (rule False)
    from False join_first [of "map (\<lambda>kv. dump_string (fst kv) @ '': '' @ dump (Suc l) (snd kv)) kvs"
        "CHR '','' # newline_indent (Suc l)"]
    obtain t where "join (CHR '','' # newline_indent (Suc l))
          (map (\<lambda>kv. dump_string (fst kv) @ '': '' @ dump (Suc l) (snd kv)) kvs)
        = dump_string (fst (hd kvs)) @ '': '' @ dump (Suc l) (snd (hd kvs)) @ t"
      by (auto simp: hd_map)
    then have "skip_ws ?cs = quote_char # concat (map escape_char (fst (hd kvs)))
        @ quote_char # '': '' @ dump (Suc l) (snd (hd kvs)) @ t @ newline_indent l @ CHR ''}'' # rest"
      by (simp add: skip_ws_newline_indent skip_ws_first dump_string_def quote_char_neq)
    with members False JObject.prems(1) show ?thesis
      by (simp add: parse_value.simps quote_char_neq dict_of_pairs_distinct)
  qed
qed

lemma json_loads_json_dumps: "wf_json j \<Longrightarrow> json_loads (json_dumps j) = Some j"
  using parse_value_dump [of j "[]" 0] skip_ws_dump [of 0 j "[]"]
  by (simp add: json_loads_def json_dumps_def item_end_Nil skip_ws_def)

lemma wf_json_of_document: "wf_json (json_of_document d)"
  by (auto simp: json_of_document_def json_of_user_def json_of_post_def json_of_comment_def
      list_all_iff split: option.splits)


subsection \<open>The dictionary of a document determines the document\<close>

lemma json_of_user_inj: "json_of_user u = json_of_user u' \<Longrightarrow> u = u'"
  by (cases u; cases u') (simp add: json_of_user_def)

lemma json_of_comment_inj: "json_of_comment c = json_of_comment c' \<Longrightarrow> c = c'"
  by (cases c; cases c') (simp add: json_of_comment_def)

lemma map_inj_eq: "(\<And>x y. f x = f y \<Longrightarrow> x = y) \<Longrightarrow> map f xs = map f ys \<Longrightarrow> xs = ys"
  by (induction xs arbitrary: ys) auto

lemma json_of_post_inj: "json_of_post p = json_of_post p' \<Longrightarrow> p = p'"
proof -
  assume eq: "json_of_post p = json_of_post p'"
  have c: "\<And>cs cs'. map json_of_comment cs = map json_of_comment cs' \<Longrightarrow> cs = cs'"
    by (rule map_inj_eq [of json_of_comment]) (rule json_of_comment_inj)
  have i: "\<And>l l'. map JInt l = map JInt l' \<Longrightarrow> l = l'"
    by (rule map_inj_eq [of JInt]) simp
  from eq show ?thesis
    by (cases p; cases p')
       (auto simp: json_of_post_def split: option.splits dest: c i)
qed

lemma json_of_document_inj: "json_of_document d = json_of_document d' \<Longrightarrow> d = d'"
proof -
  assume eq: "json_of_document d = json_of_document d'"
  have p: "\<And>ps ps'. map json_of_post ps = map json_of_post ps' \<Longrightarrow> ps = ps'"
    by (rule map_inj_eq [of json_of_post]) (rule json_of_post_inj)
  have u: "\<And>us us'. map json_of_user us = map json_of_user us' \<Longrightarrow> us = us'"
    by (rule map_inj_eq [of json_of_user]) (rule json_of_user_inj)
  have n: "\<And>l l'. map JString l = map JString l' \<Longrightarrow> l = l'"
    by (rule map_inj_eq [of JString]) simp
  from eq show ?thesis
    by (cases d; cases d')
       (auto simp: json_of_document_def dest: p u n json_of_user_inj)
qed


subsection \<open>The length tests of the reader never fail\<close>

text \<open>
  A successful call leaves a remainder shorter than its input, so the tests that make
  the recursion well-founded are always passed: the reader satisfies the equations
  without them.
\<close>

lemma length_skip_ws: "length (skip_ws s) \<le> length s"
  by (simp add: skip_ws_def length_dropWhile_le)

lemma skip_ws_Cons_length: "skip_ws s = c # r \<Longrightarrow> length r < length s"
  using length_skip_ws [of s] by simp

lemma cons_char_Some: "cons_char c x = Some (s, r) \<Longrightarrow> \<exists>s'. x = Some (s', r)"
  by (cases x) (auto simp: cons_char_def)

lemma parse_string_body_shorter:
  "parse_string_body s = Some (str, r) \<Longrightarrow> length r < length s"
proof (induction s arbitrary: str r rule: parse_string_body.induct)
  case 1
  then show ?case by simp
next
  case (2 c cs)
  show ?case
  proof (cases "c = quote_char")
    case True
    with "2.prems" show ?thesis by simp
  next
    case nq: False
    show ?thesis
    proof (cases "c = backslash")
      case False
      with nq "2.prems" obtain s' where "parse_string_body cs = Some (s', r)"
        by (auto split: if_splits dest: cons_char_Some)
      with "2.IH"(3) [of s' r] nq False "2.prems" show ?thesis
        by (auto split: if_splits)
    next
      case True
      show ?thesis
      proof (cases cs)
        case Nil
        with nq True "2.prems" show ?thesis by simp
      next
        case (Cons e r0)
        show ?thesis
        proof (cases "e = CHR ''u''")
          case False
          with nq True Cons "2.prems" obtain ch s' where
            "unescape e = Some ch" "parse_string_body r0 = Some (s', r)"
            by (auto split: option.splits dest: cons_char_Some)
          with "2.IH"(2) [of e r0 ch s' r] nq True Cons False show ?thesis by simp
        next
          case u: True
          with nq True Cons "2.prems" obtain h1 h2 h3 h4 r' v s' where
            r0: "r0 = h1 # h2 # h3 # h4 # r'" and
            v: "read_hex4 h1 h2 h3 h4 = Some v" "v < 128" and
            rec: "parse_string_body r' = Some (s', r)"
            by (auto split: list.splits option.splits if_splits dest: cons_char_Some)
          have "length r < length r'"
            by (rule "2.IH"(1) [OF nq True Cons u, of h1 "h2 # h3 # h4 # r'" h2 "h3 # h4 # r'"
                  h3 "h4 # r'" h4 r' v s' r])
               (simp_all add: r0 v rec)
          with r0 Cons show ?thesis by simp
        qed
      qed
    qed
  qed
qed

lemma starts_with_length: "starts_with p s \<Longrightarrow> length p \<le> length s"
proof -
  assume "starts_with p s"
  then have "length (take (length p) s) = length p" by (simp add: starts_with_def)
  then show ?thesis by simp
qed

lemma parse_number_shorter: "parse_number s = Some (v, r) \<Longrightarrow> length r < length s"
proof -
  assume a: "parse_number s = Some (v, r)"
  define s1 where "s1 = (if starts_with ''-'' s then drop 1 s else s)"
  from a have ds: "takeWhile is_digit s1 \<noteq> []" and r: "r = dropWhile is_digit s1"
    by (auto simp: parse_number_def Let_def s1_def split: if_splits)
  have "length (takeWhile is_digit s1) + length (dropWhile is_digit s1) = length s1"
    by (metis length_append takeWhile_dropWhile_id)
  with ds r have "length r < length s1" by (cases "takeWhile is_digit s1") auto
  moreover have "length s1 \<le> length s" by (simp add: s1_def)
  ultimately show ?thesis by simp
qed

lemma parse_atom_shorter: "parse_atom s = Some (v, r) \<Longrightarrow> length r < length s"
  using starts_with_length [of "''null''" s] starts_with_length [of "''true''" s]
    starts_with_length [of "''false''" s]
  by (auto simp: parse_atom_def split: if_splits dest: parse_number_shorter)

lemma parse_shorter:
  shows "parse_value s = Some (v, r) \<Longrightarrow> length r < length s"
    and "parse_elems s1 = Some (vs, r1) \<Longrightarrow> length r1 < length s1"
    and "parse_members s2 = Some (kvs, r2) \<Longrightarrow> length r2 < length s2"
proof (induction s and s1 and s2 arbitrary: v r and vs r1 and kvs r2
    rule: parse_value_parse_elems_parse_members.induct)
  case 1
  then show ?case by (simp add: parse_value.simps)
next
  case (2 c cs)
  show ?case
  proof (cases "c = CHR ''[''")
    case True
    with "2.prems" obtain c' r' where sk: "skip_ws cs = c' # r'"
      by (auto simp: parse_value.simps split: list.splits)
    show ?thesis
    proof (cases "c' = CHR '']''")
      case close: True
      with True sk "2.prems" have "r = r'" by (simp add: parse_value.simps)
      with skip_ws_Cons_length [OF sk] show ?thesis by simp
    next
      case False
      with True sk "2.prems" obtain vs where "parse_elems cs = Some (vs, r)"
        by (auto simp: parse_value.simps)
      with "2.IH"(1) [OF True sk False] show ?thesis by fastforce
    qed
  next
    case nb: False
    show ?thesis
    proof (cases "c = CHR ''{''")
      case True
      with nb "2.prems" obtain c' r' where sk: "skip_ws cs = c' # r'"
        by (auto simp: parse_value.simps split: list.splits)
      show ?thesis
      proof (cases "c' = CHR ''}''")
        case close: True
        with nb True sk "2.prems" have "r = r'" by (simp add: parse_value.simps)
        with skip_ws_Cons_length [OF sk] show ?thesis by simp
      next
        case False
        with nb True sk "2.prems" obtain kvs where "parse_members cs = Some (kvs, r)"
          by (auto simp: parse_value.simps)
        with "2.IH"(2) [OF nb True sk False] show ?thesis by fastforce
      qed
    next
      case False
      with nb "2.prems" show ?thesis
        by (auto simp: parse_value.simps split: if_splits
            dest: parse_string_body_shorter parse_atom_shorter)
    qed
  qed
next
  case (3 s)
  from "3.prems" obtain v r c r' where
    v: "parse_value (skip_ws s) = Some (v, r)" and sk: "skip_ws r = c # r'"
    by (subst (asm) parse_elems.simps) (auto split: option.splits list.splits)
  have "length r < length (skip_ws s)" by (rule "3.IH"(1) [OF v])
  with skip_ws_Cons_length [OF sk] length_skip_ws [of s] have short: "length r' < length s" by simp
  show ?case
  proof (cases "c = CHR '',''")
    case True
    with v sk short "3.prems" obtain vs' where rec: "parse_elems r' = Some (vs', r1)"
      by (subst (asm) parse_elems.simps) auto
    have "length r1 < length r'"
      by (rule "3.IH"(2) [OF v refl sk True short rec])
    with short show ?thesis by simp
  next
    case False
    with v sk "3.prems" have "r1 = r'"
      by (subst (asm) parse_elems.simps) (auto split: if_splits)
    with short show ?thesis by simp
  qed
next
  case (4 s)
  from "4.prems" obtain c cs k r c' r' v ra c2 r3 where
    sk0: "skip_ws s = c # cs" and q: "c = quote_char" and
    key: "parse_string_body cs = Some (k, r)" and sk1: "skip_ws r = c' # r'" and
    colon: "c' = CHR '':''" and g: "length r' < length s" and
    v: "parse_value (skip_ws r') = Some (v, ra)" and sk2: "skip_ws ra = c2 # r3"
    by (subst (asm) parse_members.simps) (auto split: option.splits list.splits if_splits)
  have "length ra < length (skip_ws r')"
    by (rule "4.IH"(1) [OF sk0 _ key refl sk1 _ v]) (simp_all add: q colon g)
  with skip_ws_Cons_length [OF sk2] length_skip_ws [of r'] g have short: "length r3 < length s"
    by simp
  show ?case
  proof (cases "c2 = CHR '',''")
    case True
    with sk0 q key sk1 colon g v sk2 short "4.prems" obtain kvs' where
      rec: "parse_members r3 = Some (kvs', r2)"
      by (subst (asm) parse_members.simps) auto
    have "length r2 < length r3"
      by (rule "4.IH"(2) [OF sk0 _ key refl sk1 _ v refl sk2 True short rec])
         (simp_all add: q colon g)
    with short show ?thesis by simp
  next
    case False
    with sk0 q key sk1 colon g v sk2 "4.prems" have "r2 = r3"
      by (subst (asm) parse_members.simps) (auto split: if_splits)
    with short show ?thesis by simp
  qed
qed

lemma parse_elems_unguarded:
  "parse_elems s =
    (case parse_value (skip_ws s) of
       None \<Rightarrow> None
     | Some (v, r) \<Rightarrow>
         (case skip_ws r of
            [] \<Rightarrow> None
          | c # r' \<Rightarrow>
              if c = CHR '','' then map_option (\<lambda>(vs, rest). (v # vs, rest)) (parse_elems r')
              else if c = CHR '']'' then Some ([v], r')
              else None))"
proof (cases "parse_value (skip_ws s)")
  case None
  then show ?thesis by (subst parse_elems.simps) simp
next
  case (Some vr)
  obtain v r where vr: "vr = (v, r)" by (cases vr) auto
  show ?thesis
  proof (cases "skip_ws r")
    case Nil
    with Some vr show ?thesis by (subst parse_elems.simps) simp
  next
    case (Cons c r')
    from Some vr have "length r < length (skip_ws s)" by (simp add: parse_shorter(1))
    with skip_ws_Cons_length [OF Cons] length_skip_ws [of s] have "length r' < length s" by simp
    with Some vr Cons show ?thesis by (subst parse_elems.simps) simp
  qed
qed

lemma parse_members_unguarded:
  "parse_members s =
    (case skip_ws s of
       [] \<Rightarrow> None
     | c # cs \<Rightarrow>
         if c \<noteq> quote_char then None
         else
           (case parse_string_body cs of
              None \<Rightarrow> None
            | Some (k, r) \<Rightarrow>
                (case skip_ws r of
                   [] \<Rightarrow> None
                 | c' # r' \<Rightarrow>
                     if c' \<noteq> CHR '':'' then None
                     else
                       (case parse_value (skip_ws r') of
                          None \<Rightarrow> None
                        | Some (v, r2) \<Rightarrow>
                            (case skip_ws r2 of
                               [] \<Rightarrow> None
                             | c2 # r3 \<Rightarrow>
                                 if c2 = CHR '','' then
                                   map_option (\<lambda>(kvs, rest). ((k, v) # kvs, rest))
                                     (parse_members r3)
                                 else if c2 = CHR ''}'' then Some ([(k, v)], r3)
                                 else None)))))"
proof (cases "skip_ws s")
  case Nil
  then show ?thesis by (subst parse_members.simps) simp
next
  case sk0: (Cons c cs)
  show ?thesis
  proof (cases "parse_string_body cs")
    case None
    with sk0 show ?thesis by (subst parse_members.simps) simp
  next
    case (Some kr)
    obtain k r where kr: "kr = (k, r)" by (cases kr) auto
    show ?thesis
    proof (cases "skip_ws r")
      case Nil
      with sk0 Some kr show ?thesis by (subst parse_members.simps) simp
    next
      case sk1: (Cons c' r')
      from Some kr have "length r < length cs" by (simp add: parse_string_body_shorter)
      with skip_ws_Cons_length [OF sk1] skip_ws_Cons_length [OF sk0]
      have g1: "length r' < length s" by simp
      show ?thesis
      proof (cases "parse_value (skip_ws r')")
        case None
        with sk0 Some kr sk1 show ?thesis by (subst parse_members.simps) simp
      next
        case v: (Some vr)
        obtain v r2 where vr: "vr = (v, r2)" by (cases vr) auto
        show ?thesis
        proof (cases "skip_ws r2")
          case Nil
          with sk0 Some kr sk1 v vr show ?thesis by (subst parse_members.simps) simp
        next
          case sk2: (Cons c2 r3)
          from v vr have "length r2 < length (skip_ws r')" by (simp add: parse_shorter(1))
          with skip_ws_Cons_length [OF sk2] length_skip_ws [of r'] g1
          have "length r3 < length s" by simp
          with sk0 Some kr sk1 v vr sk2 g1 show ?thesis by (subst parse_members.simps) simp
        qed
      qed
    qed
  qed
qed


section \<open>Properties of loading and saving\<close>

lemma save_data_Written:
  "save_data lib Written j fs = (Inr (), Some (json_dump lib j), [])"
  by (simp add: save_data_def write_file_def)

lemma load_data_parsed:
  "json_load lib s = Some j \<Longrightarrow> load_data lib ReadOk w ts (Some s) = (Inr j, Some s, [])"
  by (simp add: load_data_def read_json_def)

lemma python_json_roundtrip:
  "json_load python_json (json_dump python_json (json_of_document d)) = Some (json_of_document d)"
  by (simp add: python_json_def json_loads_json_dumps wf_json_of_document)

lemma json_loads_invalid: "json_loads ''{invalid syntax'' = None"
  by code_simp


text \<open>
  C6. Round trip: for every document \<open>d\<close>, a \<^verbatim>\<open>save_data(d)\<close> whose write succeeds
  returns normally, and the \<^verbatim>\<open>load_data()\<close> that follows reads the file back and
  returns the dictionary of \<open>d\<close>, without touching the file and without a message. The
  text in the file is the one \<^verbatim>\<open>json.dump\<close> writes with \<^verbatim>\<open>indent=2\<close> and
  \<^verbatim>\<open>ensure_ascii=False\<close>.
\<close>

theorem save_load_roundtrip:
  "(case save_data python_json Written (json_of_document d) fs of
      (res, fs', evs) \<Rightarrow>
        res = Inr () \<and> load_data python_json ReadOk w ts fs' = (Inr (json_of_document d), fs', []))"
  by (simp add: save_data_Written load_data_parsed [OF python_json_roundtrip])

theorem save_load_roundtrip_witness:
  "save_data python_json Written (json_of_document (default_data fixed_clock)) None
     = (Inr (), Some (json_dumps (json_of_document (default_data fixed_clock))), [])
   \<and> load_data python_json ReadOk OpenFailed fixed_clock
       (Some (json_dumps (json_of_document (default_data fixed_clock))))
     = (Inr (json_of_document (default_data fixed_clock)),
        Some (json_dumps (json_of_document (default_data fixed_clock))), [])"
  using save_load_roundtrip [where d = "default_data fixed_clock" and fs = None
      and w = OpenFailed and ts = fixed_clock]
  by (simp add: save_data_Written python_json_def)


text \<open>
  C8. When the file exists and its text cannot be parsed, \<^verbatim>\<open>load_data\<close> returns the
  seeded default document and raises nothing: the result is a value, whatever the reader
  rejects and whether or not the write of the defaults succeeds.
\<close>

theorem load_data_corrupt_default:
  "json_load lib s = None \<Longrightarrow>
   fst (load_data lib r w ts (Some s)) = Inr (json_of_document (default_data ts))"
  by (cases r; cases w)
     (simp_all add: load_data_def read_json_def create_default_data_def save_data_def
        write_file_def)

theorem load_data_corrupt_default_witness:
  "json_load python_json ''{invalid syntax'' = None
   \<and> fst (load_data python_json ReadOk Written fixed_clock (Some ''{invalid syntax''))
       = Inr (json_of_document (default_data fixed_clock))"
proof -
  have bad: "json_load python_json ''{invalid syntax'' = None"
    by (simp add: python_json_def json_loads_invalid)
  from bad load_data_corrupt_default [OF bad] show ?thesis by simp
qed


text \<open>
  C9. The claim is that \<^verbatim>\<open>save\<close> replaces the whole file or does nothing, reports an
  \<^verbatim>\<open>IOFailure\<close> and never leaves a partial file. \<^verbatim>\<open>save_data\<close> opens the file
  with mode \<^verbatim>\<open>'w'\<close>, which empties it, and writes in place; there is no temporary
  file and no rename. What holds: a successful write leaves exactly the text of the
  document in the file; on an error the exception is caught, an error box is shown and
  \<^verbatim>\<open>save_data\<close> returns normally; the former text survives only if the file could
  not be opened, and an error after the opening leaves a prefix of the new text.
\<close>

theorem save_data_outcomes:
  "save_data lib Written j fs = (Inr (), Some (json_dump lib j), [])
   \<and> save_data lib OpenFailed j fs = (Inr (), fs, [ShownSaveError])
   \<and> save_data lib (WriteFailed n) j fs = (Inr (), Some (take n (json_dump lib j)), [ShownSaveError])"
  by (simp add: save_data_def write_file_def)

theorem save_data_partial_counterexample:
  "save_data python_json (WriteFailed 0) (json_of_document empty_doc)
       (Some (json_dumps (json_of_document scenario_doc)))
     = (Inr (), Some [], [ShownSaveError])
   \<and> [] \<noteq> json_dumps (json_of_document scenario_doc)
   \<and> [] \<noteq> json_dumps (json_of_document empty_doc)"
  by (simp add: save_data_def write_file_def python_json_def json_dumps_def
      json_of_document_def)


text \<open>
  C10. The claim is that a \<^verbatim>\<open>load_data\<close> that cannot parse the file always
  replaces its text by the text of the seeded default document. The defaults are written
  by \<^verbatim>\<open>save_data\<close>, which may fail: when the file cannot be opened for writing the
  text that could not be parsed stays, and \<^verbatim>\<open>load_data\<close> still returns the
  defaults. What holds: when the write succeeds, the file holds the text of the seeded
  default document afterwards, in place of the text that could not be parsed, and the
  load error has been printed.
\<close>

theorem load_data_corrupt_overwrites:
  "json_load lib s = None \<Longrightarrow>
   load_data lib r Written ts (Some s)
     = (Inr (json_of_document (default_data ts)),
        Some (json_dump lib (json_of_document (default_data ts))),
        [PrintedLoadError])"
  by (cases r)
     (simp_all add: load_data_def read_json_def create_default_data_def save_data_def
        write_file_def)

theorem load_data_corrupt_overwrites_witness:
  "json_load python_json ''{invalid syntax'' = None
   \<and> load_data python_json ReadOk Written fixed_clock (Some ''{invalid syntax'')
       = (Inr (json_of_document (default_data fixed_clock)),
          Some (json_dumps (json_of_document (default_data fixed_clock))),
          [PrintedLoadError])"
proof -
  have bad: "json_load python_json ''{invalid syntax'' = None"
    by (simp add: python_json_def json_loads_invalid)
  from bad load_data_corrupt_overwrites [OF bad, where r = ReadOk and ts = fixed_clock] show ?thesis
    by (simp add: python_json_def)
qed

theorem load_data_corrupt_overwrites_counterexample:
  "json_load python_json ''{invalid syntax'' = None
   \<and> load_data python_json ReadOk OpenFailed fixed_clock (Some ''{invalid syntax'')
       = (Inr (json_of_document (default_data fixed_clock)), Some ''{invalid syntax'',
          [PrintedLoadError, ShownSaveError])"
  by (simp add: python_json_def json_loads_invalid load_data_def read_json_def
      create_default_data_def save_data_def write_file_def)

lemma load_data_corrupt_write_fails:
  "json_load lib s = None \<Longrightarrow>
   load_data lib r OpenFailed ts (Some s)
     = (Inr (json_of_document (default_data ts)), Some s, [PrintedLoadError, ShownSaveError])
   \<and> load_data lib r (WriteFailed n) ts (Some s)
     = (Inr (json_of_document (default_data ts)),
        Some (take n (json_dump lib (json_of_document (default_data ts)))),
        [PrintedLoadError, ShownSaveError])"
  by (cases r)
     (simp_all add: load_data_def read_json_def create_default_data_def save_data_def
        write_file_def)

end
